theory Spec2Isabelle
  imports Complex_Main "HOL-Library.Multiset" "HOL-Library.Log_Nat"
begin

section \<open>Symbol pool and shuffling\<close>

text \<open>
  The fifteen icons of \<open>ALL_SYMBOLS\<close>. The source holds component references; only their
  identity matters.
\<close>

datatype symbol =
  Star | Circle | Triangle | Square | Hexagon | Diamond | Cloud | Sun | Moon | Heart
  | Zap | Flame | Droplet | Leaf | Snowflake

definition ALL_SYMBOLS :: "symbol list" where
  "ALL_SYMBOLS =
     [Star, Circle, Triangle, Square, Hexagon, Diamond, Cloud, Sun, Moon, Heart,
      Zap, Flame, Droplet, Leaf, Snowflake]"

text \<open>
  \<open>Math.random()\<close> is an ambient source of numbers. The model makes it explicit: \<open>rnd n\<close> is
  the value returned by the \<open>n\<close>-th call, and every function that draws takes the index of the
  next unread value and returns the index it has advanced to. The values are rationals
  (every double is one); \<open>valid_random\<close> is the contract of \<open>Math.random\<close>, a value in
  \<open>[0, 1)\<close>.
\<close>

type_synonym random = "nat \<Rightarrow> rat"

definition valid_random :: "random \<Rightarrow> bool" where
  "valid_random rnd = (\<forall>n. 0 \<le> rnd n \<and> rnd n < 1)"

text \<open>
  \<open>Math.floor(Math.random() * n)\<close>. The product is taken exactly; the source rounds it to
  a double first, which for a value below 1 and \<open>n\<close> up to 15 still gives an index below
  \<open>n\<close>. What is proved below holds for every choice of indices in range.
\<close>

definition random_index :: "random \<Rightarrow> nat \<Rightarrow> nat \<Rightarrow> nat" where
  "random_index rnd p n = nat \<lfloor>rnd p * of_nat n\<rfloor>"

text \<open>
  \<open>shuffleArray\<close>: the loop \<open>for (i = length - 1; i > 0; i--)\<close> is a recursion on \<open>i\<close>; the
  destructuring swap reads both cells and then writes \<open>newArr[i]\<close>, then \<open>newArr[j]\<close>.
  With a valid random source \<open>j \<le> i\<close>, so no access is out of range.
\<close>

fun shuffle_loop :: "random \<Rightarrow> nat \<Rightarrow> 'a list \<Rightarrow> nat \<Rightarrow> 'a list \<times> nat" where
  "shuffle_loop rnd 0 newArr p = (newArr, p)"
| "shuffle_loop rnd (Suc k) newArr p =
     (let i = Suc k;
          j = random_index rnd p (i + 1)
      in shuffle_loop rnd k (newArr[i := newArr ! j, j := newArr ! i]) (Suc p))"

definition shuffleArray :: "random \<Rightarrow> 'a list \<Rightarrow> nat \<Rightarrow> 'a list \<times> nat" where
  "shuffleArray rnd array p = shuffle_loop rnd (length array - 1) array p"

text \<open>\<open>xs.slice(a, b)\<close> for \<open>0 \<le> a \<le> b\<close>.\<close>

definition slice :: "nat \<Rightarrow> nat \<Rightarrow> 'a list \<Rightarrow> 'a list" where
  "slice a b xs = take (b - a) (drop a xs)"

section \<open>Scoring\<close>

datatype GameType = SymbolMatch | Coding

text \<open>
  JavaScript numbers are IEEE-754 binary64. \<open>fl64\<close> rounds a rational to the nearest
  double, ties to even, with the gradual underflow of the format; overflow to infinity is not
  modelled (no value of \<open>calculatePRI\<close> comes near \<open>2^1024\<close> when its arguments are counters
  below \<open>2^53\<close>). \<open>binade x\<close> is the exponent \<open>e\<close> with \<open>2^e \<le> |x| < 2^(e+1)\<close>.
\<close>

definition binade :: "rat \<Rightarrow> int" where
  "binade x =
     (let (p, q) = quotient_of \<bar>x\<bar>;
          e0 = bitlen p - bitlen q
      in if 2 powi e0 \<le> \<bar>x\<bar> then e0 else e0 - 1)"

definition round_ties_even :: "rat \<Rightarrow> int" where
  "round_ties_even x =
     (let f = \<lfloor>x\<rfloor>; d = x - of_int f
      in if d < 1 / 2 then f else if 1 / 2 < d then f + 1 else if even f then f else f + 1)"

definition fl64 :: "rat \<Rightarrow> rat" where
  "fl64 x =
     (if x = 0 then 0
      else let u = 2 powi (max (binade x) (- 1022) - 52)
           in of_int (round_ties_even (x / u)) * u)"

text \<open>\<open>Math.round\<close>: the nearest integer, a tie going up.\<close>

definition Math_round :: "rat \<Rightarrow> int" where
  "Math_round x = \<lfloor>x + 1 / 2\<rfloor>"

text \<open>
  \<open>calculatePRI\<close>, one \<open>fl64\<close> for each arithmetic operation of the source, in its order.
  \<open>gameType\<close> may be \<open>null\<close> (\<open>None\<close>), which takes the constants of the coding game.
\<close>

definition calculatePRI :: "int \<Rightarrow> int \<Rightarrow> int \<Rightarrow> GameType option \<Rightarrow> int" where
  "calculatePRI score mistakes elapsedSeconds gameType =
     (if elapsedSeconds < 10 then 0
      else
        let rawScore = max 0 (fl64 (of_int score - fl64 (of_int mistakes * 1)));
            ratePerMinute = fl64 (fl64 (rawScore / of_int elapsedSeconds) * 60);
            mean = (if gameType = Some SymbolMatch then 45 else 30);
            sd = (if gameType = Some SymbolMatch then 12 else 8);
            pri = fl64 (100 + fl64 (fl64 (fl64 (ratePerMinute - mean) / sd) * 15))
        in max 40 (min 160 (Math_round pri)))"

text \<open>
  The formula as the specification words it, in exact arithmetic: the rate per minute,
  the index before rounding, and the rounded, clamped index.
\<close>

definition spec_mean :: "GameType \<Rightarrow> rat" where
  "spec_mean g = (case g of SymbolMatch \<Rightarrow> 45 | Coding \<Rightarrow> 30)"

definition spec_sd :: "GameType \<Rightarrow> rat" where
  "spec_sd g = (case g of SymbolMatch \<Rightarrow> 12 | Coding \<Rightarrow> 8)"

definition spec_raw_index :: "int \<Rightarrow> int \<Rightarrow> int \<Rightarrow> GameType \<Rightarrow> rat" where
  "spec_raw_index s m e g =
     100 + ((of_int (max 0 (s - m)) / of_int e * 60 - spec_mean g) / spec_sd g) * 15"

definition spec_index :: "int \<Rightarrow> int \<Rightarrow> int \<Rightarrow> GameType \<Rightarrow> int" where
  "spec_index s m e g = max 40 (min 160 (round (spec_raw_index s m e g)))"

section \<open>Symbol search: one trial\<close>

datatype feedback = correct | incorrect

text \<open>
  The state cells of \<open>SymbolMatchGame\<close> that a trial consists of. \<open>generateRound\<close> reads
  none of them and sets all four.
\<close>

record match_state =
  targets :: "symbol list"
  searchGroup :: "symbol list"
  isMatch :: bool
  match_feedback :: "feedback option"

definition SymbolMatchGame_init :: match_state where
  "SymbolMatchGame_init =
     \<lparr>targets = [], searchGroup = [], isMatch = False, match_feedback = None\<rparr>"

text \<open>
  \<open>SymbolMatchGame.generateRound\<close>. The draws are read in the order of the source: fourteen
  for the shuffle of the pool, one for the coin, and in the match branch one for the target
  to include and four for the shuffle of the search group.
\<close>

definition SymbolMatchGame_generateRound ::
    "random \<Rightarrow> match_state \<Rightarrow> nat \<Rightarrow> match_state \<times> nat" where
  "SymbolMatchGame_generateRound rnd st p =
     (let (shuffled, p1) = shuffleArray rnd ALL_SYMBOLS p;
          newTargets = slice 0 2 shuffled;
          match = (1 / 2 < rnd p1);
          p2 = Suc p1
      in if match then
           let targetToInclude = newTargets ! random_index rnd p2 2;
               others = slice 2 6 shuffled;
               (newSearchGroup, p3) = shuffleArray rnd (targetToInclude # others) (Suc p2)
           in (st\<lparr>targets := newTargets, searchGroup := newSearchGroup, isMatch := match,
                   match_feedback := None\<rparr>, p3)
         else
           (st\<lparr>targets := newTargets, searchGroup := slice 2 7 shuffled, isMatch := match,
                match_feedback := None\<rparr>, p2))"

section \<open>Coding: one trial and a session of trials\<close>

text \<open>
  The state cells of \<open>CodingGame\<close>. The \<open>Map\<close> from digits to symbols is a partial function;
  \<open>currentNumber\<close> is the target digit on screen, and starts at \<open>1\<close>.
\<close>

record coding_state =
  map_st :: "nat \<rightharpoonup> symbol"
  buttonOrder :: "nat list"
  currentNumber :: nat
  coding_feedback :: "feedback option"

definition CodingGame_init :: coding_state where
  "CodingGame_init =
     \<lparr>map_st = Map.empty, buttonOrder = [], currentNumber = 1, coding_feedback = None\<rparr>"

text \<open>
  The loop \<open>do { nextNum = Math.floor(Math.random() * 5) + 1 } while (nextNum === currentNumber)\<close>.
  It has no bound: a random source that keeps producing the rejected digit keeps it running,
  which is the value \<open>None\<close>.
\<close>

partial_function (option) draw_nextNum :: "random \<Rightarrow> nat \<Rightarrow> nat \<Rightarrow> (nat \<times> nat) option" where
  "draw_nextNum rnd cur p =
     (if random_index rnd p 5 + 1 = cur then draw_nextNum rnd cur (Suc p)
      else Some (random_index rnd p 5 + 1, Suc p))"

declare draw_nextNum.simps [code]

text \<open>
  \<open>CodingGame.generateRound\<close>: fourteen draws for the pool, four for the button order, then
  the loop. The \<open>for (i = 1; i <= 5; i++) newMap.set(i, shuffled[i - 1])\<close> is a fold over
  \<open>[1, 2, 3, 4, 5]\<close>.
\<close>

definition CodingGame_generateRound ::
    "random \<Rightarrow> coding_state \<Rightarrow> nat \<Rightarrow> (coding_state \<times> nat) option" where
  "CodingGame_generateRound rnd st p =
     (let (shuffled, p1) = shuffleArray rnd ALL_SYMBOLS p;
          newMap = fold (\<lambda>i m. m(i \<mapsto> shuffled ! (i - 1))) [1 ..< 6] Map.empty;
          (newOrder, p2) = shuffleArray rnd [1, 2, 3, 4, 5] p1
      in case draw_nextNum rnd (currentNumber st) p2 of
           None \<Rightarrow> None
         | Some (nextNum, p3) \<Rightarrow>
             Some (st\<lparr>map_st := newMap, buttonOrder := newOrder, currentNumber := nextNum,
                      coding_feedback := None\<rparr>, p3))"

text \<open>
  \<open>CodingGame.handleAnswer\<close> on the component's own cells (the score and mistake counters
  belong to \<open>App\<close>): it returns whether the answer was right and sets the feedback. The
  round counter it bumps after 100 ms is what makes the next \<open>generateRound\<close> run.
\<close>

definition CodingGame_handleAnswer :: "nat \<Rightarrow> coding_state \<Rightarrow> bool \<times> coding_state" where
  "CodingGame_handleAnswer num st =
     (if num = currentNumber st then (True, st\<lparr>coding_feedback := Some correct\<rparr>)
      else (False, st\<lparr>coding_feedback := Some incorrect\<rparr>))"

text \<open>
  A session: the trial generated on mount, then for each answer the user gives an answer
  step and the next trial. The result is the list of trials in the order they were shown.
\<close>

fun coding_rounds ::
    "random \<Rightarrow> nat list \<Rightarrow> coding_state \<Rightarrow> nat \<Rightarrow> coding_state list option" where
  "coding_rounds rnd [] st p = Some []"
| "coding_rounds rnd (a # as) st p =
     (case CodingGame_generateRound rnd (snd (CodingGame_handleAnswer a st)) p of
        None \<Rightarrow> None
      | Some (st', p') \<Rightarrow>
          (case coding_rounds rnd as st' p' of
             None \<Rightarrow> None
           | Some sts \<Rightarrow> Some (st' # sts)))"

definition coding_session :: "random \<Rightarrow> nat list \<Rightarrow> coding_state list option" where
  "coding_session rnd answers =
     (case CodingGame_generateRound rnd CodingGame_init 0 of
        None \<Rightarrow> None
      | Some (st1, p1) \<Rightarrow>
          (case coding_rounds rnd answers st1 p1 of
             None \<Rightarrow> None
           | Some sts \<Rightarrow> Some (st1 # sts)))"

text \<open>
  A random source is \<open>varied\<close> when, from every index on, it still produces a digit other
  than any given one: what lets the rejection loop end.
\<close>

definition varied :: "random \<Rightarrow> bool" where
  "varied rnd = (\<forall>p d. \<exists>k. random_index rnd (p + k) 5 + 1 \<noteq> d)"

section \<open>Session timer\<close>

text \<open>The type \<open>30 | 60 | 120 | 'endless'\<close>; \<open>seconds\<close> is not read for \<open>endless\<close>.\<close>

datatype TimeLimit = L30 | L60 | L120 | endless

fun seconds :: "TimeLimit \<Rightarrow> int" where
  "seconds L30 = 30"
| "seconds L60 = 60"
| "seconds L120 = 120"
| "seconds endless = 0"

text \<open>
  \<open>useGameTimer\<close>: the displayed time and the \<open>elapsedRef\<close> counter. A tick is one run of the
  interval callback; the effect that watches \<open>timeDisplay\<close> runs after the render that
  follows a tick and calls \<open>onEnd\<close> with the elapsed count when a countdown has reached zero.
  \<open>timer_effect\<close> returns that call's argument, or \<open>None\<close> when it makes no call.
\<close>

record timer_state =
  timeDisplay :: int
  elapsedRef :: int

definition useGameTimer_init :: "TimeLimit \<Rightarrow> timer_state" where
  "useGameTimer_init timeLimit =
     \<lparr>timeDisplay = (if timeLimit = endless then 0 else seconds timeLimit), elapsedRef = 0\<rparr>"

definition timer_tick :: "TimeLimit \<Rightarrow> timer_state \<Rightarrow> timer_state" where
  "timer_tick timeLimit t =
     (let e = elapsedRef t + 1
      in if timeLimit \<noteq> endless then t\<lparr>elapsedRef := e, timeDisplay := timeDisplay t - 1\<rparr>
         else t\<lparr>elapsedRef := e, timeDisplay := e\<rparr>)"

definition timer_effect :: "TimeLimit \<Rightarrow> timer_state \<Rightarrow> int option" where
  "timer_effect timeLimit t =
     (if timeLimit \<noteq> endless \<and> timeDisplay t \<le> 0 then Some (elapsedRef t) else None)"

definition timer_stop :: "timer_state \<Rightarrow> int" where
  "timer_stop t = elapsedRef t"

text \<open>
  One tick and the render after it: the calls of \<open>onEnd\<close> are collected in order, after
  those made so far. \<open>run_ticks\<close> is \<open>n\<close> such steps.
\<close>

definition timer_step :: "TimeLimit \<Rightarrow> timer_state \<times> int list \<Rightarrow> timer_state \<times> int list" where
  "timer_step timeLimit s =
     (let t' = timer_tick timeLimit (fst s)
      in (t', snd s @ (case timer_effect timeLimit t' of None \<Rightarrow> [] | Some e \<Rightarrow> [e])))"

fun run_ticks :: "TimeLimit \<Rightarrow> nat \<Rightarrow> timer_state \<times> int list \<Rightarrow> timer_state \<times> int list" where
  "run_ticks timeLimit 0 s = s"
| "run_ticks timeLimit (Suc n) s = run_ticks timeLimit n (timer_step timeLimit s)"

text \<open>The timer from mount: the effect also runs after the first render.\<close>

definition timer_run :: "TimeLimit \<Rightarrow> nat \<Rightarrow> timer_state \<times> int list" where
  "timer_run timeLimit n =
     (let t0 = useGameTimer_init timeLimit
      in run_ticks timeLimit n
           (t0, (case timer_effect timeLimit t0 of None \<Rightarrow> [] | Some e \<Rightarrow> [e])))"

section \<open>Application state and the end of a session\<close>

datatype Screen = home | symbol_match | coding | result | stats_screen

record StatEntry =
  stat_id :: nat
  stat_date :: nat
  stat_gameType :: "GameType option"
  stat_pri :: int
  stat_score :: int
  stat_mistakes :: int
  stat_timeLimit :: TimeLimit
  stat_elapsed :: int

text \<open>
  The \<open>stats\<close> cell is declared \<open>StatEntry[]\<close>, but the effect that loads the history puts
  there whatever \<open>JSON.parse\<close> returns. \<open>NotIterable\<close> stands for a value the spread
  \<open>[...stats, newStat]\<close> cannot iterate (\<open>null\<close>, a number, a boolean, a plain object), on
  which it throws a \<open>TypeError\<close>. An iterable value (an array, or a string, which the spread
  iterates by character) is taken to be the list of its elements, and its elements to be
  entries.
  The \<open>pri_stats\<close> entry of \<open>localStorage\<close> is absent (\<open>None\<close>), or a string that
  \<open>JSON.parse\<close> rejects, or one it parses to a value. \<open>stat_id\<close> is the clock reading whose
  decimal string the source stores.
\<close>

datatype stats_value = Entries "StatEntry list" | NotIterable

datatype stored = Unparsable | Parses stats_value

datatype error = TypeError

record App =
  screen :: Screen
  gameType :: "GameType option"
  timeLimit :: TimeLimit
  score :: int
  mistakes :: int
  stats :: stats_value
  currentPri :: int
  currentElapsed :: int
  pri_stats :: "stored option"

text \<open>The state of \<open>App\<close> at its first render, over a given store.\<close>

definition App_init :: "stored option \<Rightarrow> App" where
  "App_init store =
     \<lparr>screen = home, gameType = None, timeLimit = L60, score = 0, mistakes = 0,
      stats = Entries [], currentPri = 0, currentElapsed = 0, pri_stats = store\<rparr>"

text \<open>
  The effect that runs once when \<open>App\<close> mounts:
  \<open>if (saved) { try { setStats(JSON.parse(saved)) } catch (e) { } }\<close>. Only a parse error
  is caught; any parsed value becomes the history.
\<close>

definition load_stats :: "App \<Rightarrow> App" where
  "load_stats a =
     (case pri_stats a of
        None \<Rightarrow> a
      | Some Unparsable \<Rightarrow> a
      | Some (Parses v) \<Rightarrow> a\<lparr>stats := v\<rparr>)"

definition App_mount :: "stored option \<Rightarrow> App" where
  "App_mount store = load_stats (App_init store)"

text \<open>
  \<open>endGame\<close> is a callback that closes over \<open>gameType\<close>, \<open>score\<close>, \<open>mistakes\<close>, \<open>timeLimit\<close> and
  \<open>stats\<close> of the render that created it: \<open>c\<close> is that render's state, \<open>a\<close> the state the
  setters and \<open>localStorage.setItem\<close> act on. \<open>now1\<close> and \<open>now2\<close> are the two readings of
  \<open>Date.now()\<close>. The spread throws before \<open>setStats\<close> and \<open>setItem\<close> are reached, so an
  exception leaves the history and the store as they were.
\<close>

definition endGame :: "App \<Rightarrow> int \<Rightarrow> nat \<Rightarrow> nat \<Rightarrow> App \<Rightarrow> error + App" where
  "endGame c finalElapsed now1 now2 a =
     (let pri = calculatePRI (score c) (mistakes c) finalElapsed (gameType c);
          a1 = a\<lparr>currentPri := pri, currentElapsed := finalElapsed\<rparr>
      in if 10 \<le> finalElapsed then
           (case stats c of
              NotIterable \<Rightarrow> Inl TypeError
            | Entries h \<Rightarrow>
                let newStat = \<lparr>stat_id = now1, stat_date = now2, stat_gameType = gameType c,
                               stat_pri = pri, stat_score = score c,
                               stat_mistakes = mistakes c, stat_timeLimit = timeLimit c,
                               stat_elapsed = finalElapsed\<rparr>;
                    updatedStats = h @ [newStat]
                in Inr (a1\<lparr>stats := Entries updatedStats,
                          pri_stats := Some (Parses (Entries updatedStats)),
                          screen := result\<rparr>))
         else Inr (a1\<lparr>screen := result\<rparr>))"

text \<open>
  What a user can do to the state of \<open>App\<close> between mount and the end of a session:
  \<open>startGame\<close>, the choice of a time limit, an answer (the game's \<open>setScore\<close> or
  \<open>setMistakes\<close>), a change of screen, and the end callback of the current render.
\<close>

definition startGame :: "GameType \<Rightarrow> App \<Rightarrow> App" where
  "startGame type a =
     a\<lparr>gameType := Some type, score := 0, mistakes := 0,
       screen := (case type of SymbolMatch \<Rightarrow> symbol_match | Coding \<Rightarrow> coding)\<rparr>"

datatype event =
  StartGame GameType | SetTimeLimit TimeLimit | AnswerRight | AnswerWrong
  | SetScreen Screen | EndGame int nat nat

fun app_step :: "event \<Rightarrow> App \<Rightarrow> error + App" where
  "app_step (StartGame type) a = Inr (startGame type a)"
| "app_step (SetTimeLimit t) a = Inr (a\<lparr>timeLimit := t\<rparr>)"
| "app_step AnswerRight a = Inr (a\<lparr>score := score a + 1\<rparr>)"
| "app_step AnswerWrong a = Inr (a\<lparr>mistakes := mistakes a + 1\<rparr>)"
| "app_step (SetScreen sc) a = Inr (a\<lparr>screen := sc\<rparr>)"
| "app_step (EndGame finalElapsed now1 now2) a = endGame a finalElapsed now1 now2 a"

fun app_run :: "event list \<Rightarrow> App \<Rightarrow> error + App" where
  "app_run [] a = Inr a"
| "app_run (ev # evs) a = (case app_step ev a of Inl err \<Rightarrow> Inl err | Inr a' \<Rightarrow> app_run evs a')"

text \<open>
  The history that the store holds, as a reader that falls back to the empty history would
  see it.
\<close>

definition stored_history :: "App \<Rightarrow> StatEntry list" where
  "stored_history a = (case pri_stats a of Some (Parses (Entries h)) \<Rightarrow> h | _ \<Rightarrow> [])"

section \<open>Sample inputs\<close>

text \<open>
  Two random sources used to run the generators on concrete input. \<open>sample_random\<close>
  alternates between \<open>1/8\<close> and \<open>5/8\<close>; \<open>sample_random_match\<close> differs at the draw of the
  coin of the first symbol-search trial, which it turns to \<open>match\<close>.
\<close>

definition sample_random :: random where
  "sample_random = (\<lambda>n. if even n then 1 / 8 else 5 / 8)"

definition sample_random_match :: random where
  "sample_random_match = (\<lambda>n. if n = 14 then 3 / 4 else if even n then 1 / 8 else 5 / 8)"

text \<open>
  A store that holds the summary of one earlier session; the events of a session of symbol
  search with three right answers and a wrong one; the state these lead to from mount; and
  the states after the end callback of that state ran at 30 seconds, and ran again at 31.
  \<open>sample_bad_store\<close> holds the string \<open>null\<close>, and \<open>sample_app_bad\<close> is the state the same
  events lead to over it.
\<close>

definition sample_entry :: StatEntry where
  "sample_entry =
     \<lparr>stat_id = 1, stat_date = 1, stat_gameType = Some Coding, stat_pri = 100,
      stat_score = 15, stat_mistakes = 0, stat_timeLimit = L30, stat_elapsed = 30\<rparr>"

definition sample_store :: "stored option" where
  "sample_store = Some (Parses (Entries [sample_entry]))"


definition sample_app :: App where
  "sample_app =
     \<lparr>screen = symbol_match, gameType = Some SymbolMatch, timeLimit = L30, score = 3,
      mistakes = 1, stats = Entries [sample_entry], currentPri = 0, currentElapsed = 0,
      pri_stats = sample_store\<rparr>"



definition sample_app_ended :: App where
  "sample_app_ended =
     (case endGame sample_app 30 1000 1000 sample_app of Inr a \<Rightarrow> a | Inl err \<Rightarrow> sample_app)"

definition sample_app_ended_twice :: App where
  "sample_app_ended_twice =
     (case endGame sample_app 31 2000 2000 sample_app_ended of
        Inr a \<Rightarrow> a
      | Inl err \<Rightarrow> sample_app_ended)"

section \<open>The shuffle permutes\<close>

lemma random_index_less:
  assumes "valid_random rnd" and "0 < n"
  shows "random_index rnd p n < n"
proof -
  have r: "0 \<le> rnd p" "rnd p < 1"
    using assms(1) by (simp_all add: valid_random_def)
  have "rnd p * of_nat n < of_nat n"
    using r(2) assms(2) by simp
  then have "\<lfloor>rnd p * of_nat n\<rfloor> < int n"
    by (simp add: floor_less_iff)
  moreover have "0 \<le> \<lfloor>rnd p * of_nat n\<rfloor>"
    using r(1) by simp
  ultimately show ?thesis
    unfolding random_index_def by linarith
qed

lemma shuffle_loop_mset:
  "valid_random rnd \<Longrightarrow> k < length xs \<Longrightarrow> mset (fst (shuffle_loop rnd k xs p)) = mset xs"
proof (induction k arbitrary: xs p)
  case 0
  then show ?case by simp
next
  case (Suc k)
  let ?j = "random_index rnd p (Suc k + 1)"
  have j: "?j < Suc k + 1"
    using Suc.prems(1) by (intro random_index_less) simp_all
  then have jl: "?j < length xs"
    using Suc.prems(2) by simp
  have sw: "mset (xs[Suc k := xs ! ?j, ?j := xs ! Suc k]) = mset xs"
    using mset_swap [OF jl Suc.prems(2)] .
  have "mset (fst (shuffle_loop rnd k (xs[Suc k := xs ! ?j, ?j := xs ! Suc k]) (Suc p)))
          = mset (xs[Suc k := xs ! ?j, ?j := xs ! Suc k])"
    using Suc.prems by (intro Suc.IH) simp_all
  with sw show ?case
    by (simp add: Let_def)
qed

lemma shuffle_loop_pos: "snd (shuffle_loop rnd k xs p) = p + k"
  by (induction k arbitrary: xs p) (simp_all add: Let_def)

lemma shuffleArray_mset:
  assumes "valid_random rnd"
  shows "mset (fst (shuffleArray rnd xs p)) = mset xs"
proof (cases xs)
  case Nil
  then show ?thesis by (simp add: shuffleArray_def)
next
  case (Cons x ys)
  then have "length xs - 1 < length xs" by simp
  then show ?thesis
    unfolding shuffleArray_def using assms by (rule shuffle_loop_mset [rotated])
qed

lemma shuffleArray_pos: "snd (shuffleArray rnd xs p) = p + (length xs - 1)"
  by (simp add: shuffleArray_def shuffle_loop_pos)

lemma shuffleArray_set:
  "valid_random rnd \<Longrightarrow> set (fst (shuffleArray rnd xs p)) = set xs"
  using shuffleArray_mset [of rnd xs p] by (metis set_mset_mset)

lemma shuffleArray_length:
  "valid_random rnd \<Longrightarrow> length (fst (shuffleArray rnd xs p)) = length xs"
  using shuffleArray_mset [of rnd xs p] by (metis size_mset)

lemma shuffleArray_distinct:
  "valid_random rnd \<Longrightarrow> distinct (fst (shuffleArray rnd xs p)) = distinct xs"
  using shuffleArray_mset [of rnd xs p] by (metis mset_eq_imp_distinct_iff)

lemma distinct_ALL_SYMBOLS: "distinct ALL_SYMBOLS"
  by (simp add: ALL_SYMBOLS_def)

lemma length_ALL_SYMBOLS: "length ALL_SYMBOLS = 15"
  by (simp add: ALL_SYMBOLS_def)

lemma valid_sample_random: "valid_random sample_random"
  by (simp add: valid_random_def sample_random_def)

lemma valid_sample_random_match: "valid_random sample_random_match"
  by (simp add: valid_random_def sample_random_match_def)

section \<open>Symbol search trials\<close>

lemma distinct_take_drop_disjoint:
  "distinct xs \<Longrightarrow> set (take n xs) \<inter> set (drop n xs) = {}"
  using distinct_append [of "take n xs" "drop n xs"] by simp

lemma match_round_targets:
  "targets (fst (SymbolMatchGame_generateRound rnd st p))
     = take 2 (fst (shuffleArray rnd ALL_SYMBOLS p))"
  by (simp add: SymbolMatchGame_generateRound_def Let_def split_beta slice_def)

lemma match_round_isMatch:
  "isMatch (fst (SymbolMatchGame_generateRound rnd st p)) = (1 / 2 < rnd (p + 14))"
  by (simp add: SymbolMatchGame_generateRound_def Let_def split_beta shuffleArray_pos
      length_ALL_SYMBOLS)

lemma match_round_searchGroup:
  "searchGroup (fst (SymbolMatchGame_generateRound rnd st p)) =
     (let shuffled = fst (shuffleArray rnd ALL_SYMBOLS p)
      in if 1 / 2 < rnd (p + 14)
         then fst (shuffleArray rnd
                (take 2 shuffled ! random_index rnd (Suc (p + 14)) 2 # take 4 (drop 2 shuffled))
                (Suc (Suc (p + 14))))
         else take 5 (drop 2 shuffled))"
  by (simp add: SymbolMatchGame_generateRound_def Let_def split_beta shuffleArray_pos
      length_ALL_SYMBOLS slice_def)

lemma match_round_facts:
  fixes rnd :: random and p :: nat and st :: match_state
  assumes v: "valid_random rnd"
  defines "shuffled \<equiv> fst (shuffleArray rnd ALL_SYMBOLS p)"
  defines "r \<equiv> fst (SymbolMatchGame_generateRound rnd st p)"
  shows "distinct (targets r)" and "length (targets r) = 2" and "distinct (searchGroup r)"
    and "length (searchGroup r) = 5"
    and "isMatch r \<Longrightarrow> \<exists>t \<in> set (targets r). t \<in> set (searchGroup r)"
    and "\<not> isMatch r \<Longrightarrow> set (targets r) \<inter> set (searchGroup r) = {}"
proof -
  have d: "distinct shuffled" and l: "length shuffled = 15"
    using v by (simp_all add: shuffled_def shuffleArray_distinct shuffleArray_length
        distinct_ALL_SYMBOLS length_ALL_SYMBOLS)
  have t: "targets r = take 2 shuffled"
    by (simp add: r_def shuffled_def match_round_targets)
  show "distinct (targets r)" and "length (targets r) = 2"
    using d l by (simp_all add: t)
  have disj: "set (take 2 shuffled) \<inter> set (drop 2 shuffled) = {}"
    using d by (rule distinct_take_drop_disjoint)
  have sub: "set (take n (drop 2 shuffled)) \<subseteq> set (drop 2 shuffled)" for n
    by (rule set_take_subset)
  let ?t = "take 2 shuffled ! random_index rnd (Suc (p + 14)) 2"
  have tin: "?t \<in> set (take 2 shuffled)"
    using l random_index_less [OF v, of 2 "Suc (p + 14)"] by (intro nth_mem) simp
  have dm: "distinct (?t # take 4 (drop 2 shuffled))"
    using d tin disj sub [of 4] by auto
  show "distinct (searchGroup r)"
    using v dm d by (simp add: r_def match_round_searchGroup shuffled_def [symmetric]
        shuffleArray_distinct del: distinct.simps)
  show "length (searchGroup r) = 5"
    using v l by (simp add: r_def match_round_searchGroup shuffled_def [symmetric]
        shuffleArray_length)
  show "\<exists>t \<in> set (targets r). t \<in> set (searchGroup r)" if "isMatch r"
  proof -
    from that have m: "1 / 2 < rnd (p + 14)"
      by (simp add: r_def match_round_isMatch)
    have "?t \<in> set (searchGroup r)"
      using v m by (simp add: r_def match_round_searchGroup shuffled_def [symmetric]
          shuffleArray_set)
    with tin show ?thesis
      unfolding t by blast
  qed
  show "set (targets r) \<inter> set (searchGroup r) = {}" if "\<not> isMatch r"
  proof -
    from that have m: "\<not> 1 / 2 < rnd (p + 14)"
      by (simp add: r_def match_round_isMatch)
    then have "searchGroup r = take 5 (drop 2 shuffled)"
      by (simp add: r_def match_round_searchGroup shuffled_def [symmetric])
    then show ?thesis
      using disj sub [of 5] unfolding t by auto
  qed
qed

text \<open>The first trial under each sample source: one of each branch.\<close>

lemma match_round_sample_match:
  "fst (SymbolMatchGame_generateRound sample_random_match SymbolMatchGame_init 0) =
     \<lparr>targets = [Flame, Leaf], searchGroup = [Heart, Hexagon, Square, Triangle, Leaf],
      isMatch = True, match_feedback = None\<rparr>"
  by code_simp

lemma match_round_sample_no_match:
  "fst (SymbolMatchGame_generateRound sample_random SymbolMatchGame_init 0) =
     \<lparr>targets = [Flame, Leaf], searchGroup = [Hexagon, Triangle, Heart, Square, Star],
      isMatch = False, match_feedback = None\<rparr>"
  by code_simp

text \<open>
  Claim C2. Whatever the random source returns (within \<open>[0, 1)\<close>) and whichever branch the
  coin selects, the generated trial has \<open>isMatch\<close> true exactly when one of its two targets
  occurs in its search group.
\<close>

theorem match_isMatch_iff_target_present:
  assumes "valid_random rnd"
  shows "isMatch (fst (SymbolMatchGame_generateRound rnd st p))
     \<longleftrightarrow> (\<exists>t \<in> set (targets (fst (SymbolMatchGame_generateRound rnd st p))).
            t \<in> set (searchGroup (fst (SymbolMatchGame_generateRound rnd st p))))"
  using match_round_facts(5,6) [OF assms, where p = p and st = st] by blast

theorem match_isMatch_iff_target_present_witness:
  "valid_random sample_random_match
   \<and> isMatch (fst (SymbolMatchGame_generateRound sample_random_match SymbolMatchGame_init 0))
   \<and> (\<exists>t \<in> set (targets
                 (fst (SymbolMatchGame_generateRound sample_random_match SymbolMatchGame_init 0))).
         t \<in> set (searchGroup
                 (fst (SymbolMatchGame_generateRound sample_random_match SymbolMatchGame_init 0))))"
proof -
  have m: "isMatch (fst (SymbolMatchGame_generateRound sample_random_match SymbolMatchGame_init 0))"
    by (simp add: match_round_sample_match)
  show ?thesis
    using match_isMatch_iff_target_present
      [OF valid_sample_random_match, of SymbolMatchGame_init 0]
      valid_sample_random_match m
    by blast
qed

text \<open>
  Claim C10. In every generated symbol-search trial the two targets are distinct, the
  search group has no repeated symbol, and when \<open>isMatch\<close> is false no target occurs in the
  search group.
\<close>

theorem match_trial_invariant:
  assumes "valid_random rnd"
  shows "distinct (targets (fst (SymbolMatchGame_generateRound rnd st p)))
     \<and> length (targets (fst (SymbolMatchGame_generateRound rnd st p))) = 2
     \<and> distinct (searchGroup (fst (SymbolMatchGame_generateRound rnd st p)))
     \<and> (\<not> isMatch (fst (SymbolMatchGame_generateRound rnd st p)) \<longrightarrow>
          set (targets (fst (SymbolMatchGame_generateRound rnd st p)))
            \<inter> set (searchGroup (fst (SymbolMatchGame_generateRound rnd st p))) = {})"
  using match_round_facts(1,2,3,6) [OF assms, where p = p and st = st] by blast

theorem match_trial_invariant_witness:
  "valid_random sample_random
   \<and> \<not> isMatch (fst (SymbolMatchGame_generateRound sample_random SymbolMatchGame_init 0))
   \<and> distinct (targets (fst (SymbolMatchGame_generateRound sample_random SymbolMatchGame_init 0)))
   \<and> length (targets (fst (SymbolMatchGame_generateRound sample_random SymbolMatchGame_init 0))) = 2
   \<and> distinct (searchGroup
        (fst (SymbolMatchGame_generateRound sample_random SymbolMatchGame_init 0)))
   \<and> set (targets (fst (SymbolMatchGame_generateRound sample_random SymbolMatchGame_init 0)))
        \<inter> set (searchGroup
            (fst (SymbolMatchGame_generateRound sample_random SymbolMatchGame_init 0))) = {}"
proof -
  have m: "\<not> isMatch (fst (SymbolMatchGame_generateRound sample_random SymbolMatchGame_init 0))"
    by (simp add: match_round_sample_no_match)
  show ?thesis
    using match_trial_invariant [OF valid_sample_random, of SymbolMatchGame_init 0]
      valid_sample_random m
    by blast
qed

section \<open>Coding trials\<close>

lemma draw_nextNum_first:
  "(\<forall>i<k. random_index rnd (p + i) 5 + 1 = cur) \<Longrightarrow> random_index rnd (p + k) 5 + 1 \<noteq> cur
   \<Longrightarrow> draw_nextNum rnd cur p = Some (random_index rnd (p + k) 5 + 1, Suc (p + k))"
proof (induction k arbitrary: p)
  case 0
  then show ?case
    by (subst draw_nextNum.simps) simp
next
  case (Suc k)
  have here: "random_index rnd p 5 + 1 = cur"
    using Suc.prems(1) [rule_format, of 0] by simp
  have later: "\<forall>i<k. random_index rnd (Suc p + i) 5 + 1 = cur"
    using Suc.prems(1) by (metis Suc_less_eq add_Suc_shift)
  have "draw_nextNum rnd cur (Suc p) = Some (random_index rnd (Suc p + k) 5 + 1, Suc (Suc p + k))"
    using later Suc.prems(2) by (intro Suc.IH) simp_all
  then show ?case
    using here by (subst draw_nextNum.simps) simp
qed

lemma draw_nextNum_varied:
  assumes "varied rnd"
  shows "\<exists>k. draw_nextNum rnd cur p = Some (random_index rnd (p + k) 5 + 1, Suc (p + k))
           \<and> random_index rnd (p + k) 5 + 1 \<noteq> cur"
proof -
  define P where "P k \<longleftrightarrow> random_index rnd (p + k) 5 + 1 \<noteq> cur" for k
  have ex: "\<exists>k. P k"
    using assms by (simp add: varied_def P_def)
  define k0 where "k0 = (LEAST k. P k)"
  have k0: "P k0"
    unfolding k0_def using ex by (metis LeastI)
  have before: "\<forall>i<k0. \<not> P i"
    unfolding k0_def using not_less_Least by blast
  have "draw_nextNum rnd cur p = Some (random_index rnd (p + k0) 5 + 1, Suc (p + k0))"
    using before k0 by (intro draw_nextNum_first) (simp_all add: P_def)
  with k0 show ?thesis
    unfolding P_def by blast
qed


lemma draw_nextNum_Some:
  assumes "draw_nextNum rnd cur p = Some r"
  shows "fst r \<noteq> cur \<and> (\<exists>q. fst r = random_index rnd q 5 + 1)"
proof (rule draw_nextNum.raw_induct
    [where P = "\<lambda>rnd cur p r. fst r \<noteq> cur \<and> (\<exists>q. fst r = random_index rnd q 5 + 1)",
      OF _ assms])
  fix f :: "random \<Rightarrow> nat \<Rightarrow> nat \<Rightarrow> (nat \<times> nat) option" and rnd cur p r
  assume IH: "\<And>rnd cur p r. f rnd cur p = Some r
      \<Longrightarrow> fst r \<noteq> cur \<and> (\<exists>q. fst r = random_index rnd q 5 + 1)"
    and step: "(if random_index rnd p 5 + 1 = cur then f rnd cur (Suc p)
                else Some (random_index rnd p 5 + 1, Suc p)) = Some r"
  show "fst r \<noteq> cur \<and> (\<exists>q. fst r = random_index rnd q 5 + 1)"
  proof (cases "random_index rnd p 5 + 1 = cur")
    case True
    with step have "f rnd cur (Suc p) = Some r" by simp
    then show ?thesis by (rule IH)
  next
    case False
    with step have "r = (random_index rnd p 5 + 1, Suc p)" by simp
    with False show ?thesis by auto
  qed
qed


lemma upt_1_6: "[1 ..< 6] = [1, 2, 3, 4, 5 :: nat]"
  by (simp add: upt_rec)

lemma coding_round_positions:
  "snd (shuffleArray rnd ALL_SYMBOLS p) = p + 14"
  "snd (shuffleArray rnd [1, 2, 3, 4, 5 :: nat] (p + 14)) = p + 18"
  by (simp_all add: shuffleArray_pos length_ALL_SYMBOLS)

lemma coding_round_unfold:
  "CodingGame_generateRound rnd st p =
     map_option
       (\<lambda>(nextNum, p3).
          (st\<lparr>map_st := fold (\<lambda>i m. m(i \<mapsto> fst (shuffleArray rnd ALL_SYMBOLS p) ! (i - 1)))
                          [1 ..< 6] Map.empty,
              buttonOrder := fst (shuffleArray rnd [1, 2, 3, 4, 5] (p + 14)),
              currentNumber := nextNum, coding_feedback := None\<rparr>, p3))
       (draw_nextNum rnd (currentNumber st) (p + 18))"
  unfolding CodingGame_generateRound_def Let_def split_beta coding_round_positions
  by (cases "draw_nextNum rnd (currentNumber st) (p + 18)") auto

lemma coding_round_fields:
  assumes "CodingGame_generateRound rnd st p = Some (st', p')"
  shows "map_st st' = fold (\<lambda>i m. m(i \<mapsto> fst (shuffleArray rnd ALL_SYMBOLS p) ! (i - 1)))
                          [1 ..< 6] Map.empty"
    and "buttonOrder st' = fst (shuffleArray rnd [1, 2, 3, 4, 5] (p + 14))"
    and "draw_nextNum rnd (currentNumber st) (p + 18) = Some (currentNumber st', p')"
  using assms unfolding coding_round_unfold by auto

lemma coding_round_currentNumber:
  assumes "CodingGame_generateRound rnd st p = Some (st', p')"
  shows "currentNumber st' \<noteq> currentNumber st"
  using draw_nextNum_Some [OF coding_round_fields(3) [OF assms]] by simp

lemma coding_round_digit:
  assumes "valid_random rnd" and "CodingGame_generateRound rnd st p = Some (st', p')"
  shows "currentNumber st' \<in> {1..5}"
proof -
  obtain q where "currentNumber st' = random_index rnd q 5 + 1"
    using draw_nextNum_Some [OF coding_round_fields(3) [OF assms(2)]] by auto
  moreover have "random_index rnd q 5 < 5"
    using assms(1) by (intro random_index_less) simp_all
  ultimately show ?thesis by simp
qed

lemma coding_round_returns:
  assumes "varied rnd"
  shows "\<exists>st' p'. CodingGame_generateRound rnd st p = Some (st', p')"
  using draw_nextNum_varied [OF assms, of "currentNumber st" "p + 18"]
  unfolding coding_round_unfold by auto

lemma five_map_dom:
  "dom [1 \<mapsto> a, 2 \<mapsto> b, 3 \<mapsto> c, 4 \<mapsto> d, 5 \<mapsto> e] = {1, 2, 3, 4, 5 :: nat}"
  by auto

lemma five_map_ran:
  "ran [(1::nat) \<mapsto> a, 2 \<mapsto> b, 3 \<mapsto> c, 4 \<mapsto> d, 5 \<mapsto> e] = set [e, d, c, b, a]"
  by (simp add: ran_map_upd)

lemma five_map_inj:
  "distinct [a, b, c, d, e]
   \<Longrightarrow> inj_on [(1::nat) \<mapsto> a, 2 \<mapsto> b, 3 \<mapsto> c, 4 \<mapsto> d, 5 \<mapsto> e] {1, 2, 3, 4, 5}"
  by (auto simp: inj_on_def)

lemma coding_round_map:
  assumes v: "valid_random rnd" and g: "CodingGame_generateRound rnd st p = Some (st', p')"
  shows "dom (map_st st') = {1, 2, 3, 4, 5}"
    and "inj_on (map_st st') {1, 2, 3, 4, 5}"
    and "card (ran (map_st st')) = 5"
proof -
  define xs where "xs = fst (shuffleArray rnd ALL_SYMBOLS p)"
  have d: "distinct xs" and l: "length xs = 15"
    using v by (simp_all add: xs_def shuffleArray_distinct shuffleArray_length
        distinct_ALL_SYMBOLS length_ALL_SYMBOLS)
  have m: "map_st st' = [1 \<mapsto> xs ! 0, 2 \<mapsto> xs ! 1, 3 \<mapsto> xs ! 2, 4 \<mapsto> xs ! 3, 5 \<mapsto> xs ! 4]"
    unfolding coding_round_fields(1) [OF g] xs_def [symmetric] upt_1_6 by simp
  have ne: "distinct [xs ! 0, xs ! 1, xs ! 2, xs ! 3, xs ! 4]"
    using d l by (simp add: nth_eq_iff_index_eq)
  show "dom (map_st st') = {1, 2, 3, 4, 5}"
    unfolding m by (rule five_map_dom)
  show "inj_on (map_st st') {1, 2, 3, 4, 5}"
    unfolding m using ne by (rule five_map_inj)
  have "distinct [xs ! 4, xs ! 3, xs ! 2, xs ! 1, xs ! 0]"
    using ne by auto
  then have "card (set [xs ! 4, xs ! 3, xs ! 2, xs ! 1, xs ! 0])
      = length [xs ! 4, xs ! 3, xs ! 2, xs ! 1, xs ! 0]"
    by (rule distinct_card)
  then show "card (ran (map_st st')) = 5"
    unfolding m five_map_ran by simp
qed

lemma coding_round_buttonOrder:
  assumes "valid_random rnd" and "CodingGame_generateRound rnd st p = Some (st', p')"
  shows "mset (buttonOrder st') = mset [1, 2, 3, 4, 5]"
  unfolding coding_round_fields(2) [OF assms(2)] using assms(1) by (rule shuffleArray_mset)

lemma varied_sample_random: "varied sample_random"
  unfolding varied_def
proof (intro allI)
  fix p d :: nat
  have fl: "nat \<lfloor>(25::rat) / 8\<rfloor> = 3" "nat \<lfloor>(5::rat) / 8\<rfloor> = 0"
    by code_simp+
  have a: "random_index sample_random q 5 + 1 = (if even q then 1 else 4)" for q
    by (simp add: random_index_def sample_random_def fl)
  show "\<exists>k. random_index sample_random (p + k) 5 + 1 \<noteq> d"
  proof (cases "random_index sample_random p 5 + 1 = d")
    case False
    then have "random_index sample_random (p + 0) 5 + 1 \<noteq> d" by simp
    then show ?thesis by blast
  next
    case True
    then have "random_index sample_random (p + 1) 5 + 1 \<noteq> d"
      unfolding a by (auto split: if_splits)
    then show ?thesis by blast
  qed
qed

lemma handleAnswer_currentNumber:
  "currentNumber (snd (CodingGame_handleAnswer num st)) = currentNumber st"
  by (simp add: CodingGame_handleAnswer_def)

lemma coding_rounds_adj:
  "coding_rounds rnd as st p = Some sts \<Longrightarrow> distinct_adj (map currentNumber (st # sts))"
proof (induction as arbitrary: st p sts)
  case Nil
  then show ?case by simp
next
  case (Cons a as)
  from Cons.prems obtain st' p' sts' where
    g: "CodingGame_generateRound rnd (snd (CodingGame_handleAnswer a st)) p = Some (st', p')"
    and r: "coding_rounds rnd as st' p' = Some sts'" and s: "sts = st' # sts'"
    by (auto split: option.splits)
  have "currentNumber st' \<noteq> currentNumber st"
    using coding_round_currentNumber [OF g] by (simp add: handleAnswer_currentNumber)
  moreover have "distinct_adj (map currentNumber (st' # sts'))"
    using r by (rule Cons.IH)
  ultimately show ?case
    unfolding s by auto
qed

lemma coding_rounds_length:
  "coding_rounds rnd as st p = Some sts \<Longrightarrow> length sts = length as"
  by (induction as arbitrary: st p sts) (auto split: option.splits)

lemma coding_rounds_returns:
  "varied rnd \<Longrightarrow> \<exists>sts. coding_rounds rnd as st p = Some sts"
proof (induction as arbitrary: st p)
  case Nil
  then show ?case by simp
next
  case (Cons a as)
  obtain st' p' where
    g: "CodingGame_generateRound rnd (snd (CodingGame_handleAnswer a st)) p = Some (st', p')"
    using coding_round_returns [OF Cons.prems] by blast
  obtain sts where "coding_rounds rnd as st' p' = Some sts"
    using Cons.IH [OF Cons.prems] by blast
  with g show ?case by simp
qed

lemma coding_session_returns:
  assumes "varied rnd"
  shows "\<exists>sts. coding_session rnd answers = Some sts"
proof -
  obtain st1 p1 where g: "CodingGame_generateRound rnd CodingGame_init 0 = Some (st1, p1)"
    using coding_round_returns [OF assms] by blast
  obtain sts where "coding_rounds rnd answers st1 p1 = Some sts"
    using coding_rounds_returns [OF assms] by blast
  with g show ?thesis by (simp add: coding_session_def)
qed

lemma coding_session_adj:
  assumes "coding_session rnd answers = Some sts"
  shows "distinct_adj (map currentNumber sts)" and "length sts = Suc (length answers)"
proof -
  from assms obtain st1 p1 sts' where
    r: "coding_rounds rnd answers st1 p1 = Some sts'" and s: "sts = st1 # sts'"
    by (auto simp: coding_session_def split: option.splits)
  show "distinct_adj (map currentNumber sts)"
    unfolding s using r by (rule coding_rounds_adj)
  show "length sts = Suc (length answers)"
    unfolding s using coding_rounds_length [OF r] by simp
qed

lemma coding_round_sample:
  "map_option (\<lambda>(s, p). (buttonOrder s, currentNumber s, p))
     (CodingGame_generateRound sample_random CodingGame_init 0) = Some ([4, 2, 5, 3, 1], 4, 20)"
  by code_simp

text \<open>
  Claim C9. Every trial that \<open>CodingGame.generateRound\<close> produces has a map whose keys are
  exactly the digits 1 to 5, sending them to five pairwise distinct symbols, and a button
  order that is a permutation of 1 to 5.
\<close>

theorem coding_trial_bijection:
  assumes "valid_random rnd" and "CodingGame_generateRound rnd st p = Some (st', p')"
  shows "dom (map_st st') = {1, 2, 3, 4, 5}
     \<and> inj_on (map_st st') {1, 2, 3, 4, 5}
     \<and> card (ran (map_st st')) = 5
     \<and> mset (buttonOrder st') = mset [1, 2, 3, 4, 5]"
  using coding_round_map [OF assms] coding_round_buttonOrder [OF assms] by blast

theorem coding_trial_bijection_witness:
  "valid_random sample_random
   \<and> CodingGame_generateRound sample_random CodingGame_init 0 \<noteq> None
   \<and> dom (map_st (fst (the (CodingGame_generateRound sample_random CodingGame_init 0))))
       = {1, 2, 3, 4, 5}
   \<and> inj_on (map_st (fst (the (CodingGame_generateRound sample_random CodingGame_init 0))))
       {1, 2, 3, 4, 5}
   \<and> card (ran (map_st (fst (the (CodingGame_generateRound sample_random CodingGame_init 0)))))
       = 5
   \<and> mset (buttonOrder (fst (the (CodingGame_generateRound sample_random CodingGame_init 0))))
       = mset [1, 2, 3, 4, 5]"
proof -
  obtain st' p' where
    g: "CodingGame_generateRound sample_random CodingGame_init 0 = Some (st', p')"
    using coding_round_sample by auto
  show ?thesis
    using coding_trial_bijection [OF valid_sample_random g] valid_sample_random g by simp
qed

text \<open>
  Claim C6. In a coding session, whatever the answers, the target digit of each trial after
  the first differs from the target digit of the trial before it. The session does produce
  its trials when the random source is varied, and then there is one trial more than there
  are answers.
\<close>

theorem coding_target_never_repeats:
  "(varied rnd \<longrightarrow> coding_session rnd answers \<noteq> None)
   \<and> (\<forall>sts. coding_session rnd answers = Some sts \<longrightarrow>
         length sts = Suc (length answers)
         \<and> (\<forall>k. Suc k < length sts \<longrightarrow>
               currentNumber (sts ! Suc k) \<noteq> currentNumber (sts ! k)))"
proof (intro conjI allI impI)
  assume "varied rnd"
  then show "coding_session rnd answers \<noteq> None"
    using coding_session_returns [of rnd answers] by auto
next
  fix sts
  assume s: "coding_session rnd answers = Some sts"
  show "length sts = Suc (length answers)"
    using s by (rule coding_session_adj(2))
  fix k
  assume k: "Suc k < length sts"
  have "map currentNumber sts ! k \<noteq> map currentNumber sts ! Suc k"
    using coding_session_adj(1) [OF s] k by (intro distinct_adj_nth) simp_all
  then show "currentNumber (sts ! Suc k) \<noteq> currentNumber (sts ! k)"
    using k by simp
qed

theorem coding_target_never_repeats_witness:
  "varied sample_random
   \<and> coding_session sample_random [4, 2, 1] \<noteq> None
   \<and> length (the (coding_session sample_random [4, 2, 1])) = 4
   \<and> currentNumber (the (coding_session sample_random [4, 2, 1]) ! 1)
       \<noteq> currentNumber (the (coding_session sample_random [4, 2, 1]) ! 0)
   \<and> currentNumber (the (coding_session sample_random [4, 2, 1]) ! 2)
       \<noteq> currentNumber (the (coding_session sample_random [4, 2, 1]) ! 1)
   \<and> currentNumber (the (coding_session sample_random [4, 2, 1]) ! 3)
       \<noteq> currentNumber (the (coding_session sample_random [4, 2, 1]) ! 2)"
proof -
  note t = coding_target_never_repeats [of sample_random "[4, 2, 1]"]
  obtain sts where s: "coding_session sample_random [4, 2, 1] = Some sts"
    using t varied_sample_random by auto
  have l: "length sts = 4"
    using t s by simp
  have "currentNumber (sts ! Suc k) \<noteq> currentNumber (sts ! k)" if "Suc k < 4" for k
    using t s l that by simp
  from this [of 0] this [of 1] this [of 2] show ?thesis
    using varied_sample_random s l by (simp add: numeral_2_eq_2 numeral_3_eq_3)
qed

text \<open>
  Claim C3 says that the first trial of a coding session draws its target digit from 1 to 5
  with no rejection, so that each of the five digits can come first. The code starts
  \<open>currentNumber\<close> at 1 and its loop rejects a draw equal to \<open>currentNumber\<close> on the first
  trial as on any other: whatever the random source, the first target digit is never 1.
\<close>

theorem first_coding_trial_rejects_one:
  "map_option (\<lambda>(s, p'). currentNumber s) (CodingGame_generateRound rnd CodingGame_init p)
     \<noteq> Some 1"
proof (cases "CodingGame_generateRound rnd CodingGame_init p")
  case None
  then show ?thesis by simp
next
  case (Some r)
  obtain st' p' where r: "r = (st', p')" by (cases r)
  have "currentNumber st' \<noteq> currentNumber CodingGame_init"
    using Some unfolding r by (rule coding_round_currentNumber)
  then show ?thesis
    using Some by (simp add: r CodingGame_init_def)
qed

theorem first_coding_trial_rejects_one_witness:
  "map_option (\<lambda>(s, p'). currentNumber s)
     (CodingGame_generateRound sample_random CodingGame_init 0) \<noteq> Some 1
   \<and> map_option (\<lambda>(s, p). (buttonOrder s, currentNumber s, p))
       (CodingGame_generateRound sample_random CodingGame_init 0) = Some ([4, 2, 5, 3, 1], 4, 20)"
  using first_coding_trial_rejects_one [of sample_random 0] coding_round_sample by simp

text \<open>
  The other four digits can come first. Under \<open>sample_random\<close> above, the first draw of the
  loop (index 18) is the digit 1 and is rejected; the second (index 19) gives 4.
\<close>

lemma first_coding_trial_other_digits:
  "map_option (\<lambda>(s, p'). currentNumber s)
     (CodingGame_generateRound (\<lambda>n. 1 / 4) CodingGame_init 0) = Some 2"
  "map_option (\<lambda>(s, p'). currentNumber s)
     (CodingGame_generateRound (\<lambda>n. 1 / 2) CodingGame_init 0) = Some 3"
  "map_option (\<lambda>(s, p'). currentNumber s)
     (CodingGame_generateRound (\<lambda>n. 3 / 4) CodingGame_init 0) = Some 4"
  "map_option (\<lambda>(s, p'). currentNumber s)
     (CodingGame_generateRound (\<lambda>n. 7 / 8) CodingGame_init 0) = Some 5"
  by code_simp+

section \<open>Timer\<close>

lemma run_ticks_Suc_end:
  "run_ticks L (Suc n) s = timer_step L (run_ticks L n s)"
  by (induction n arbitrary: s) simp_all

lemma run_ticks_countdown:
  assumes "L \<noteq> endless"
  shows "timeDisplay (fst (run_ticks L n (t, calls))) = timeDisplay t - int n"
    and "elapsedRef (fst (run_ticks L n (t, calls))) = elapsedRef t + int n"
  using assms
  by (induction n) (simp_all add: run_ticks_Suc_end timer_step_def timer_tick_def Let_def
      del: run_ticks.simps(2))

lemma run_ticks_countup:
  "elapsedRef (fst (run_ticks endless n (t, calls))) = elapsedRef t + int n"
  "snd (run_ticks endless n (t, calls)) = calls"
  by (induction n) (simp_all add: run_ticks_Suc_end timer_step_def timer_tick_def Let_def
      timer_effect_def del: run_ticks.simps(2))

lemma run_ticks_countdown_quiet:
  assumes "L \<noteq> endless" and "int n < timeDisplay t"
  shows "snd (run_ticks L n (t, calls)) = calls"
  using assms(2)
proof (induction n)
  case 0
  then show ?case by simp
next
  case (Suc n)
  then have "snd (run_ticks L n (t, calls)) = calls" by simp
  moreover have "0 < timeDisplay (timer_tick L (fst (run_ticks L n (t, calls))))"
    using Suc.prems assms(1) run_ticks_countdown(1) [OF assms(1), of n t calls]
    by (simp add: timer_tick_def Let_def)
  ultimately show ?case
    by (simp add: run_ticks_Suc_end timer_step_def timer_effect_def Let_def
        del: run_ticks.simps(2))
qed

lemma run_ticks_countdown_fires:
  assumes "L \<noteq> endless" and "int (Suc n) = timeDisplay t"
  shows "snd (run_ticks L (Suc n) (t, calls)) = calls @ [elapsedRef t + int (Suc n)]"
proof -
  have q: "snd (run_ticks L n (t, calls)) = calls"
    using assms by (intro run_ticks_countdown_quiet) simp_all
  have d: "timeDisplay (fst (run_ticks L n (t, calls))) = 1"
    using assms run_ticks_countdown(1) [OF assms(1), of n t calls] by simp
  have e: "elapsedRef (fst (run_ticks L n (t, calls))) = elapsedRef t + int n"
    using assms(1) by (rule run_ticks_countdown(2))
  show ?thesis
    using assms(1) q d e
    by (simp add: run_ticks_Suc_end timer_step_def timer_effect_def timer_tick_def Let_def
        del: run_ticks.simps(2))
qed

lemma seconds_pos: "L \<noteq> endless \<Longrightarrow> 0 < seconds L"
  by (cases L) simp_all

text \<open>
  Claim C8. A countdown of \<open>L\<close> seconds calls \<open>onEnd\<close> after exactly \<open>L\<close> ticks, with the
  argument \<open>L\<close>, and makes no call before; a count-up timer makes no call of its own, and
  \<open>stop\<close> after \<open>n\<close> ticks calls \<open>onEnd\<close> with \<open>n\<close>.
\<close>

theorem timer_end_callback:
  "(L \<noteq> endless \<longrightarrow>
      snd (timer_run L (nat (seconds L))) = [seconds L]
      \<and> (\<forall>n < nat (seconds L). snd (timer_run L n) = []))
   \<and> snd (timer_run endless n) = []
   \<and> timer_stop (fst (timer_run endless n)) = int n"
proof (intro conjI impI allI)
  assume c: "L \<noteq> endless"
  have init: "timer_effect L (useGameTimer_init L) = None"
    using c seconds_pos [OF c] by (simp add: timer_effect_def useGameTimer_init_def)
  have run: "timer_run L k = run_ticks L k (useGameTimer_init L, [])" for k
    by (simp add: timer_run_def init)
  obtain m where m: "nat (seconds L) = Suc m"
    using seconds_pos [OF c] by (cases "nat (seconds L)") simp_all
  then have sm: "int (Suc m) = seconds L"
    using seconds_pos [OF c] by linarith
  then have "int (Suc m) = timeDisplay (useGameTimer_init L)"
    using c by (simp add: useGameTimer_init_def)
  from run_ticks_countdown_fires [OF c this, of "[]"]
  have "snd (timer_run L (Suc m)) = [elapsedRef (useGameTimer_init L) + int (Suc m)]"
    unfolding run by simp
  then show "snd (timer_run L (nat (seconds L))) = [seconds L]"
    unfolding m sm by (simp add: useGameTimer_init_def)
  fix n
  assume "n < nat (seconds L)"
  then have "int n < timeDisplay (useGameTimer_init L)"
    using c by (simp add: useGameTimer_init_def)
  from run_ticks_countdown_quiet [OF c this, of "[]"]
  show "snd (timer_run L n) = []"
    unfolding run .
next
  show "snd (timer_run endless n) = []"
    by (simp add: timer_run_def run_ticks_countup timer_effect_def)
  show "timer_stop (fst (timer_run endless n)) = int n"
    by (simp add: timer_run_def run_ticks_countup timer_effect_def timer_stop_def
        useGameTimer_init_def)
qed

theorem timer_end_callback_witness:
  "L30 \<noteq> endless
   \<and> snd (timer_run L30 30) = [30]
   \<and> snd (timer_run L30 29) = []
   \<and> snd (timer_run endless 47) = []
   \<and> timer_stop (fst (timer_run endless 47)) = 47"
  using timer_end_callback [of L30 47] by simp

text \<open>
  The interval is cleared only when the component unmounts: a countdown that is ticked once
  more calls \<open>onEnd\<close> again.
\<close>

lemma timer_keeps_firing: "snd (timer_run L30 31) = [30, 31]"
  by code_simp


section \<open>Range of the index\<close>

text \<open>
  Claim C5. For all counters and both games, \<open>calculatePRI\<close> returns an integer between
  40 and 160 when at least ten seconds have elapsed, and 0 when fewer have.
\<close>

theorem calculatePRI_range:
  "(10 \<le> e \<longrightarrow> 40 \<le> calculatePRI s m e g \<and> calculatePRI s m e g \<le> 160)
   \<and> (e < 10 \<longrightarrow> calculatePRI s m e g = 0)"
  by (simp add: calculatePRI_def Let_def)

theorem calculatePRI_range_witness:
  "(10::int) \<le> 10
   \<and> 40 \<le> calculatePRI 0 0 10 (Some SymbolMatch)
   \<and> calculatePRI 0 0 10 (Some SymbolMatch) \<le> 160
   \<and> (5::int) < 10
   \<and> calculatePRI 7 3 5 (Some Coding) = 0"
  using calculatePRI_range [of 10 0 0 "Some SymbolMatch"]
    calculatePRI_range [of 5 7 3 "Some Coding"]
  by simp

section \<open>End of a session\<close>

lemma endGame_ge:
  assumes "10 \<le> e" and "stats c = Entries h"
  shows "endGame c e n1 n2 a =
     Inr (a\<lparr>currentPri := calculatePRI (score c) (mistakes c) e (gameType c),
            currentElapsed := e,
            stats := Entries (h @ [\<lparr>stat_id = n1, stat_date = n2, stat_gameType = gameType c,
                       stat_pri = calculatePRI (score c) (mistakes c) e (gameType c),
                       stat_score = score c, stat_mistakes = mistakes c,
                       stat_timeLimit = timeLimit c, stat_elapsed = e\<rparr>]),
            pri_stats := Some (Parses (Entries (h @ [\<lparr>stat_id = n1, stat_date = n2,
                       stat_gameType = gameType c,
                       stat_pri = calculatePRI (score c) (mistakes c) e (gameType c),
                       stat_score = score c, stat_mistakes = mistakes c,
                       stat_timeLimit = timeLimit c, stat_elapsed = e\<rparr>]))),
            screen := result\<rparr>)"
  using assms by (simp add: endGame_def Let_def)

lemma endGame_lt:
  assumes "e < 10"
  shows "endGame c e n1 n2 a =
     Inr (a\<lparr>currentPri := calculatePRI (score c) (mistakes c) e (gameType c),
            currentElapsed := e, screen := result\<rparr>)"
  using assms by (simp add: endGame_def Let_def)

lemma endGame_throws:
  assumes "10 \<le> e" and "stats c = NotIterable"
  shows "endGame c e n1 n2 a = Inl TypeError"
  using assms by (simp add: endGame_def Let_def)


lemma step_in_sync:
  assumes "stats a = Entries (stored_history a)" and "app_step ev a = Inr a'"
  shows "stats a' = Entries (stored_history a')"
proof (cases ev)
  case (EndGame e n1 n2)
  show ?thesis
  proof (cases "10 \<le> e")
    case True
    from assms(2) show ?thesis
      unfolding EndGame app_step.simps endGame_ge [OF True assms(1)]
      by (auto simp: stored_history_def)
  next
    case False
    then have "e < 10" by simp
    from assms show ?thesis
      unfolding EndGame app_step.simps endGame_lt [OF \<open>e < 10\<close>]
      by (auto simp: stored_history_def)
  qed
qed (use assms in \<open>auto simp: stored_history_def startGame_def\<close>)


lemma run_never_throws:
  assumes "stats a = Entries (stored_history a)"
  shows "\<exists>a'. app_run evs a = Inr a'"
  using assms
proof (induction evs arbitrary: a)
  case Nil
  then show ?case by simp
next
  case (Cons ev evs)
  have "\<exists>b. app_step ev a = Inr b"
  proof (cases ev)
    case (EndGame e n1 n2)
    show ?thesis
    proof (cases "10 \<le> e")
      case True
      show ?thesis unfolding EndGame app_step.simps endGame_ge [OF True Cons.prems] by blast
    next
      case False
      then have "e < 10" by simp
      show ?thesis unfolding EndGame app_step.simps endGame_lt [OF \<open>e < 10\<close>] by blast
    qed
  qed simp_all
  then obtain b where b: "app_step ev a = Inr b" by blast
  have "stats b = Entries (stored_history b)"
    using Cons.prems b by (rule step_in_sync)
  from Cons.IH [OF this] b show ?case by simp
qed


lemma calculatePRI_sample:
  "calculatePRI 3 1 30 (Some SymbolMatch) = 49" "calculatePRI 3 1 31 (Some SymbolMatch) = 49"
  "calculatePRI 3 1 5 (Some SymbolMatch) = 0"
  by code_simp+

lemma sample_app_ended_eq:
  "sample_app_ended =
     sample_app\<lparr>currentPri := 49, currentElapsed := 30,
       stats := Entries [sample_entry,
         \<lparr>stat_id = 1000, stat_date = 1000, stat_gameType = Some SymbolMatch, stat_pri = 49,
          stat_score = 3, stat_mistakes = 1, stat_timeLimit = L30, stat_elapsed = 30\<rparr>],
       pri_stats := Some (Parses (Entries [sample_entry,
         \<lparr>stat_id = 1000, stat_date = 1000, stat_gameType = Some SymbolMatch, stat_pri = 49,
          stat_score = 3, stat_mistakes = 1, stat_timeLimit = L30, stat_elapsed = 30\<rparr>])),
       screen := result\<rparr>"
  "endGame sample_app 30 1000 1000 sample_app = Inr sample_app_ended"
proof -
  have s: "stats sample_app = Entries [sample_entry]"
    by (simp add: sample_app_def)
  have e: "endGame sample_app 30 1000 1000 sample_app =
     Inr (sample_app\<lparr>currentPri := 49, currentElapsed := 30,
       stats := Entries [sample_entry,
         \<lparr>stat_id = 1000, stat_date = 1000, stat_gameType = Some SymbolMatch, stat_pri = 49,
          stat_score = 3, stat_mistakes = 1, stat_timeLimit = L30, stat_elapsed = 30\<rparr>],
       pri_stats := Some (Parses (Entries [sample_entry,
         \<lparr>stat_id = 1000, stat_date = 1000, stat_gameType = Some SymbolMatch, stat_pri = 49,
          stat_score = 3, stat_mistakes = 1, stat_timeLimit = L30, stat_elapsed = 30\<rparr>])),
       screen := result\<rparr>)"
    using endGame_ge [OF _ s, of 30 1000 1000 sample_app]
    by (simp add: sample_app_def calculatePRI_sample)
  show "sample_app_ended =
     sample_app\<lparr>currentPri := 49, currentElapsed := 30,
       stats := Entries [sample_entry,
         \<lparr>stat_id = 1000, stat_date = 1000, stat_gameType = Some SymbolMatch, stat_pri = 49,
          stat_score = 3, stat_mistakes = 1, stat_timeLimit = L30, stat_elapsed = 30\<rparr>],
       pri_stats := Some (Parses (Entries [sample_entry,
         \<lparr>stat_id = 1000, stat_date = 1000, stat_gameType = Some SymbolMatch, stat_pri = 49,
          stat_score = 3, stat_mistakes = 1, stat_timeLimit = L30, stat_elapsed = 30\<rparr>])),
       screen := result\<rparr>"
    unfolding sample_app_ended_def e by simp
  then show "endGame sample_app 30 1000 1000 sample_app = Inr sample_app_ended"
    using e by simp
qed

lemma sample_app_ended_twice_eq:
  "sample_app_ended_twice =
     sample_app\<lparr>currentPri := 49, currentElapsed := 31,
       stats := Entries [sample_entry,
         \<lparr>stat_id = 2000, stat_date = 2000, stat_gameType = Some SymbolMatch, stat_pri = 49,
          stat_score = 3, stat_mistakes = 1, stat_timeLimit = L30, stat_elapsed = 31\<rparr>],
       pri_stats := Some (Parses (Entries [sample_entry,
         \<lparr>stat_id = 2000, stat_date = 2000, stat_gameType = Some SymbolMatch, stat_pri = 49,
          stat_score = 3, stat_mistakes = 1, stat_timeLimit = L30, stat_elapsed = 31\<rparr>])),
       screen := result\<rparr>"
  "endGame sample_app 31 2000 2000 sample_app_ended = Inr sample_app_ended_twice"
proof -
  have s: "stats sample_app = Entries [sample_entry]"
    by (simp add: sample_app_def)
  have e: "endGame sample_app 31 2000 2000 sample_app_ended =
     Inr (sample_app\<lparr>currentPri := 49, currentElapsed := 31,
       stats := Entries [sample_entry,
         \<lparr>stat_id = 2000, stat_date = 2000, stat_gameType = Some SymbolMatch, stat_pri = 49,
          stat_score = 3, stat_mistakes = 1, stat_timeLimit = L30, stat_elapsed = 31\<rparr>],
       pri_stats := Some (Parses (Entries [sample_entry,
         \<lparr>stat_id = 2000, stat_date = 2000, stat_gameType = Some SymbolMatch, stat_pri = 49,
          stat_score = 3, stat_mistakes = 1, stat_timeLimit = L30, stat_elapsed = 31\<rparr>])),
       screen := result\<rparr>)"
    using endGame_ge [OF _ s, of 31 2000 2000 sample_app_ended]
    by (simp add: sample_app_ended_eq(1) sample_app_def calculatePRI_sample)
  show "sample_app_ended_twice =
     sample_app\<lparr>currentPri := 49, currentElapsed := 31,
       stats := Entries [sample_entry,
         \<lparr>stat_id = 2000, stat_date = 2000, stat_gameType = Some SymbolMatch, stat_pri = 49,
          stat_score = 3, stat_mistakes = 1, stat_timeLimit = L30, stat_elapsed = 31\<rparr>],
       pri_stats := Some (Parses (Entries [sample_entry,
         \<lparr>stat_id = 2000, stat_date = 2000, stat_gameType = Some SymbolMatch, stat_pri = 49,
          stat_score = 3, stat_mistakes = 1, stat_timeLimit = L30, stat_elapsed = 31\<rparr>])),
       screen := result\<rparr>"
    unfolding sample_app_ended_twice_def e by simp
  then show "endGame sample_app 31 2000 2000 sample_app_ended = Inr sample_app_ended_twice"
    using e by simp
qed



text \<open>
  Over a store that parses to a value that cannot be iterated, that value stays in the
  history cell, and every end callback with at least ten seconds elapsed throws.
\<close>

lemma step_bad_store:
  assumes "stats a = NotIterable" and "app_step ev a = Inr a'"
  shows "stats a' = NotIterable"
proof (cases ev)
  case (EndGame e n1 n2)
  show ?thesis
  proof (cases "10 \<le> e")
    case True
    from assms(2) show ?thesis
      unfolding EndGame app_step.simps endGame_throws [OF True assms(1)] by simp
  next
    case False
    then have "e < 10" by simp
    from assms show ?thesis
      unfolding EndGame app_step.simps endGame_lt [OF \<open>e < 10\<close>] by auto
  qed
qed (use assms in \<open>auto simp: startGame_def\<close>)

lemma run_bad_store:
  assumes "stats a = NotIterable" and "app_run evs a = Inr a'"
  shows "stats a' = NotIterable"
  using assms
proof (induction evs arbitrary: a)
  case Nil
  then show ?case by simp
next
  case (Cons ev evs)
  from Cons.prems(2) obtain b where b: "app_step ev a = Inr b" and r: "app_run evs b = Inr a'"
    by (auto split: sum.splits)
  have "stats b = NotIterable"
    using Cons.prems(1) b by (rule step_bad_store)
  then show ?case using r by (rule Cons.IH)
qed

lemma endGame_after_bad_store:
  assumes "app_run evs (App_mount (Some (Parses NotIterable))) = Inr a" and "10 \<le> e"
  shows "endGame a e n1 n2 a = Inl TypeError"
proof -
  have "stats (App_mount (Some (Parses NotIterable))) = NotIterable"
    by (simp add: App_mount_def load_stats_def App_init_def)
  then have "stats a = NotIterable"
    using assms(1) by (rule run_bad_store)
  with assms(2) show ?thesis
    by (rule endGame_throws)
qed






text \<open>
  Claim C4 says that a second call of the end callback is a no-op. \<open>endGame\<close> has no guard.
  A game that is still mounted holds the callback of the render that created it; when its
  countdown ticks once more, that callback is called again with 31 seconds. The second call
  changes the state: it replaces the record of the first call by its own.
\<close>

theorem endGame_twice_counterexample:
  "endGame sample_app 30 1000 1000 sample_app = Inr sample_app_ended
   \<and> endGame sample_app 31 2000 2000 sample_app_ended = Inr sample_app_ended_twice
   \<and> sample_app_ended_twice \<noteq> sample_app_ended
   \<and> map stat_id (stored_history sample_app) = [1]
   \<and> map stat_id (stored_history sample_app_ended) = [1, 1000]
   \<and> map stat_id (stored_history sample_app_ended_twice) = [1, 2000]
   \<and> currentElapsed sample_app_ended = 30
   \<and> currentElapsed sample_app_ended_twice = 31"
proof -
  have "currentElapsed sample_app_ended = 30" "currentElapsed sample_app_ended_twice = 31"
    by (simp_all add: sample_app_ended_eq(1) sample_app_ended_twice_eq(1))
  moreover from this have "sample_app_ended_twice \<noteq> sample_app_ended"
    by auto
  moreover have "map stat_id (stored_history sample_app) = [1]"
    "map stat_id (stored_history sample_app_ended) = [1, 1000]"
    "map stat_id (stored_history sample_app_ended_twice) = [1, 2000]"
    by (simp_all add: stored_history_def sample_app_ended_eq(1) sample_app_ended_twice_eq(1)
        sample_app_def sample_store_def sample_entry_def)
  ultimately show ?thesis
    using sample_app_ended_eq(2) sample_app_ended_twice_eq(2) by simp
qed

text \<open>
  Claim C4 as amended. A second call through the same callback is not a no-op: with at
  least ten seconds elapsed it does what it would have done had the first call not been
  made, overwriting the index, the elapsed time and the record that the first call set.
  After the two calls the history is the one the callback captured followed by exactly one
  new record, the second call's.
\<close>

theorem endGame_twice:
  assumes "10 \<le> e2" and "stats c = Entries h" and "endGame c e1 m1 n1 a = Inr a1"
  shows "endGame c e2 m2 n2 a1 = endGame c e2 m2 n2 a
     \<and> (\<exists>a2 x2. endGame c e2 m2 n2 a1 = Inr a2
           \<and> stats a2 = Entries (h @ [x2])
           \<and> pri_stats a2 = Some (Parses (Entries (h @ [x2])))
           \<and> stat_id x2 = m2 \<and> stat_date x2 = n2 \<and> stat_elapsed x2 = e2
           \<and> stat_pri x2 = calculatePRI (score c) (mistakes c) e2 (gameType c)
           \<and> currentElapsed a2 = e2
           \<and> currentPri a2 = calculatePRI (score c) (mistakes c) e2 (gameType c))"
proof (cases "10 \<le> e1")
  case True
  from assms(3) have "a1 = a\<lparr>currentPri := calculatePRI (score c) (mistakes c) e1 (gameType c),
            currentElapsed := e1,
            stats := Entries (h @ [\<lparr>stat_id = m1, stat_date = n1, stat_gameType = gameType c,
                       stat_pri = calculatePRI (score c) (mistakes c) e1 (gameType c),
                       stat_score = score c, stat_mistakes = mistakes c,
                       stat_timeLimit = timeLimit c, stat_elapsed = e1\<rparr>]),
            pri_stats := Some (Parses (Entries (h @ [\<lparr>stat_id = m1, stat_date = n1,
                       stat_gameType = gameType c,
                       stat_pri = calculatePRI (score c) (mistakes c) e1 (gameType c),
                       stat_score = score c, stat_mistakes = mistakes c,
                       stat_timeLimit = timeLimit c, stat_elapsed = e1\<rparr>]))),
            screen := result\<rparr>"
    unfolding endGame_ge [OF True assms(2)] by simp
  then show ?thesis
    by (simp add: endGame_ge [OF assms(1,2)])
next
  case False
  then have "e1 < 10" by simp
  from assms(3) have "a1 = a\<lparr>currentPri := calculatePRI (score c) (mistakes c) e1 (gameType c),
            currentElapsed := e1, screen := result\<rparr>"
    unfolding endGame_lt [OF \<open>e1 < 10\<close>] by simp
  then show ?thesis
    by (simp add: endGame_ge [OF assms(1,2)])
qed

theorem endGame_twice_witness:
  "(10::int) \<le> 31
   \<and> stats sample_app = Entries [sample_entry]
   \<and> endGame sample_app 30 1000 1000 sample_app = Inr sample_app_ended
   \<and> endGame sample_app 31 2000 2000 sample_app_ended
       = endGame sample_app 31 2000 2000 sample_app
   \<and> (\<exists>a2 x2. endGame sample_app 31 2000 2000 sample_app_ended = Inr a2
         \<and> stats a2 = Entries ([sample_entry] @ [x2])
         \<and> pri_stats a2 = Some (Parses (Entries ([sample_entry] @ [x2])))
         \<and> stat_id x2 = 2000 \<and> stat_date x2 = 2000 \<and> stat_elapsed x2 = 31
         \<and> stat_pri x2 = 49 \<and> currentElapsed a2 = 31 \<and> currentPri a2 = 49)"
proof -
  have s: "stats sample_app = Entries [sample_entry]"
    by (simp add: sample_app_def)
  have f: "score sample_app = 3" "mistakes sample_app = 1"
    "gameType sample_app = Some SymbolMatch"
    by (simp_all add: sample_app_def)
  have le: "(10::int) \<le> 31"
    by simp
  note t = endGame_twice [OF le s sample_app_ended_eq(2), of 2000 2000,
      unfolded f calculatePRI_sample]
  show ?thesis
    using t le s sample_app_ended_eq(2) by blast
qed

section \<open>The index formula in binary64\<close>

lemma round_ties_even_err: "\<bar>of_int (round_ties_even y) - y\<bar> \<le> 1 / 2"
proof -
  define f where "f = \<lfloor>y\<rfloor>"
  define d where "d = y - of_int f"
  have d: "0 \<le> d" "d < 1"
    unfolding d_def f_def by linarith+
  have r: "round_ties_even y =
      (if d < 1 / 2 then f else if 1 / 2 < d then f + 1 else if even f then f else f + 1)"
    by (simp add: round_ties_even_def Let_def f_def d_def)
  have y: "of_int f - y = - d" "of_int (f + 1) - y = 1 - d"
    by (simp_all add: d_def)
  consider "round_ties_even y = f" "d \<le> 1 / 2" | "round_ties_even y = f + 1" "1 / 2 \<le> d"
    unfolding r by (cases "d < 1 / 2"; cases "1 / 2 < d"; cases "even f"; simp)
  then show ?thesis
  proof cases
    case 1
    show ?thesis unfolding 1(1) y using d 1(2) by simp
  next
    case 2
    show ?thesis unfolding 2(1) y using d 2(2) by simp
  qed
qed

lemma round_ties_even_of_int: "round_ties_even (of_int n) = n"
  by (simp add: round_ties_even_def Let_def)

lemma binade_le:
  assumes "x \<noteq> 0"
  shows "2 powi binade x \<le> \<bar>x\<bar>"
proof -
  obtain p q where pq: "quotient_of \<bar>x\<bar> = (p, q)"
    by (cases "quotient_of \<bar>x\<bar>")
  have q: "0 < q"
    using pq by (rule quotient_of_denom_pos)
  have x: "\<bar>x\<bar> = of_int p / of_int q"
    using pq by (rule quotient_of_div)
  have p: "0 < p"
  proof -
    have "0 < \<bar>x\<bar>" using assms by simp
    then have "0 < (of_int p :: rat) / of_int q" by (simp add: x)
    then show ?thesis using q by (simp add: zero_less_divide_iff)
  qed
  define e0 where "e0 = bitlen p - bitlen q"
  have b: "binade x = (if 2 powi e0 \<le> \<bar>x\<bar> then e0 else e0 - 1)"
    by (simp add: binade_def pq e0_def Let_def)
  show ?thesis
  proof (cases "2 powi e0 \<le> \<bar>x\<bar>")
    case True
    then show ?thesis by (simp add: b)
  next
    case False
    have bp: "1 \<le> bitlen p" and bq: "1 \<le> bitlen q"
      using p q by (simp_all add: bitlen_alt_def)
    have lp: "(2::rat) ^ nat (bitlen p - 1) \<le> of_int p"
    proof -
      have "(2::int) ^ nat (bitlen p - 1) \<le> p"
        using bitlen_bounds [OF p] by simp
      then have "of_int ((2::int) ^ nat (bitlen p - 1)) \<le> (of_int p :: rat)"
        by (simp only: of_int_le_iff)
      then show ?thesis by simp
    qed
    have uq: "(of_int q :: rat) \<le> 2 ^ nat (bitlen q)"
    proof -
      have "q \<le> (2::int) ^ nat (bitlen q)"
        using bitlen_bounds [OF q] by simp
      then have "(of_int q :: rat) \<le> of_int ((2::int) ^ nat (bitlen q))"
        by (simp only: of_int_le_iff)
      then show ?thesis by simp
    qed
    have "(2::rat) powi (e0 - 1) = 2 powi (bitlen p - 1) / 2 powi (bitlen q)"
      unfolding e0_def by (simp add: power_int_diff [symmetric] algebra_simps)
    also have "\<dots> = 2 ^ nat (bitlen p - 1) / 2 ^ nat (bitlen q)"
      using bp bq by (simp add: power_int_def)
    also have "\<dots> \<le> of_int p / of_int q"
      using lp uq q p by (intro frac_le) simp_all
    finally show ?thesis
      using False by (simp add: b x)
  qed
qed


lemma fl64_err: "\<bar>fl64 x - x\<bar> \<le> max \<bar>x\<bar> 1 / 2 ^ 53"
proof (cases "x = 0")
  case True
  then show ?thesis by (simp add: fl64_def)
next
  case False
  define b where "b = max (binade x) (- 1022)"
  define u :: rat where "u = 2 powi (b - 52)"
  have u: "0 < u" by (simp add: u_def)
  have f: "fl64 x = of_int (round_ties_even (x / u)) * u"
    using False by (simp add: fl64_def Let_def u_def b_def)
  have "fl64 x - x = (of_int (round_ties_even (x / u)) - x / u) * u"
    using u by (simp add: f field_simps)
  then have "\<bar>fl64 x - x\<bar> = \<bar>of_int (round_ties_even (x / u)) - x / u\<bar> * \<bar>u\<bar>"
    by (simp only: abs_mult)
  also have "\<dots> = \<bar>of_int (round_ties_even (x / u)) - x / u\<bar> * u"
    using u by simp
  also have "\<dots> \<le> 1 / 2 * u"
    using round_ties_even_err [of "x / u"] u by (intro mult_right_mono) simp_all
  finally have e: "\<bar>fl64 x - x\<bar> \<le> u / 2" by simp
  have u2: "u / 2 = 2 powi (b - 53)"
    unfolding u_def using power_int_diff [of "2::rat" "b - 52" 1] by simp
  have p53: "(2::rat) powi (- 53) = 1 / 2 ^ 53"
    using power_int_minus_divide [of "2::rat" 53] by simp
  show ?thesis
  proof (cases "binade x \<le> - 1022")
    case True
    then have "b = - 1022" by (simp add: b_def)
    then have "u / 2 \<le> 2 powi (- 53)"
      unfolding u2 by (intro power_int_increasing) simp_all
    also have "\<dots> = 1 / 2 ^ 53" by (rule p53)
    also have "\<dots> \<le> max \<bar>x\<bar> 1 / 2 ^ 53"
      by (intro divide_right_mono) simp_all
    finally show ?thesis using e by linarith
  next
    case False
    then have "b = binade x" by (simp add: b_def)
    then have "u / 2 = 2 powi binade x * 2 powi (- 53)"
      unfolding u2 using power_int_add [of "2::rat" "binade x" "- 53"] by simp
    also have "\<dots> = 2 powi binade x / 2 ^ 53"
      unfolding p53 by simp
    also have "\<dots> \<le> \<bar>x\<bar> / 2 ^ 53"
      using binade_le [OF \<open>x \<noteq> 0\<close>] by (intro divide_right_mono) simp_all
    also have "\<dots> \<le> max \<bar>x\<bar> 1 / 2 ^ 53"
      by (intro divide_right_mono) simp_all
    finally show ?thesis using e by linarith
  qed
qed


lemma fl64_of_int:
  assumes "\<bar>k\<bar> < 2 ^ 53"
  shows "fl64 (of_int k) = of_int k"
proof (cases "k = 0")
  case True
  then show ?thesis by (simp add: fl64_def)
next
  case False
  define x :: rat where "x = of_int k"
  have x0: "x \<noteq> 0" using False by (simp add: x_def)
  define b where "b = max (binade x) (- 1022)"
  have "\<bar>x\<bar> = of_int \<bar>k\<bar>" by (simp add: x_def)
  also have "\<dots> < of_int (2 ^ 53)"
    using assms by (simp only: of_int_less_iff)
  finally have "\<bar>x\<bar> < 2 powi 53" by simp
  with binade_le [OF x0] have "(2::rat) powi binade x < 2 powi 53" by linarith
  then have "binade x < 53"
    by (rule power_int_le_imp_less_exp [rotated]) simp_all
  then have b: "b \<le> 52" by (simp add: b_def)
  define j where "j = nat (52 - b)"
  have "b - 52 = - int j" using b by (simp add: j_def)
  then have u: "(2::rat) powi (b - 52) = 1 / 2 ^ j"
    by (simp add: power_int_minus_divide)
  have "x / (1 / 2 ^ j) = of_int (k * 2 ^ j)"
    by (simp add: x_def)
  then have r: "round_ties_even (x / (1 / 2 ^ j)) = k * 2 ^ j"
    by (simp only: round_ties_even_of_int)
  have "fl64 x = of_int (round_ties_even (x / (1 / 2 ^ j))) * (1 / 2 ^ j)"
    using x0 by (simp add: fl64_def Let_def b_def [symmetric] u)
  also have "\<dots> = x"
    unfolding r by (simp add: x_def)
  finally show ?thesis by (simp add: x_def)
qed

lemma fl64_near:
  assumes "\<bar>x\<bar> \<le> 1024"
  shows "\<bar>fl64 x - x\<bar> \<le> 1 / 8796093022208"
proof -
  have "max \<bar>x\<bar> 1 / 2 ^ 53 \<le> 1024 / 2 ^ 53"
    using assms by (intro divide_right_mono) simp_all
  with fl64_err [of x] show ?thesis by simp
qed

lemma fl64_lower:
  assumes "1 \<le> x"
  shows "x * 99 \<le> fl64 x * 100"
proof -
  have m: "max \<bar>x\<bar> 1 = x" using assms by simp
  have "x / 2 ^ 53 \<le> x / 100"
    using assms by (intro divide_left_mono) simp_all
  with fl64_err [of x] have "\<bar>fl64 x - x\<bar> \<le> x / 100"
    unfolding m by linarith
  then show ?thesis by linarith
qed

lemma fl64_near2:
  assumes "- 1024 \<le> x" and "x \<le> 1024"
  shows "fl64 x \<le> x + 1 / 8796093022208" and "x \<le> fl64 x + 1 / 8796093022208"
proof -
  have "\<bar>x\<bar> \<le> 1024" using assms by (simp add: abs_le_iff)
  then have "\<bar>fl64 x - x\<bar> \<le> 1 / 8796093022208" by (rule fl64_near)
  then have "fl64 x - x \<le> 1 / 8796093022208 \<and> - (fl64 x - x) \<le> 1 / 8796093022208"
    by (simp only: abs_le_iff)
  then show "fl64 x \<le> x + 1 / 8796093022208" and "x \<le> fl64 x + 1 / 8796093022208"
    by linarith+
qed

lemma div_sd_bound:
  fixes y b sd :: rat
  assumes "8 \<le> sd" and "- b \<le> y" and "y \<le> b"
  shows "y / sd \<le> b / 8" and "- (b / 8) \<le> y / sd"
proof -
  have b: "0 \<le> b" using assms by linarith
  have sd: "0 < sd" using assms by linarith
  have "y / sd \<le> b / sd"
    using assms(3) sd by (simp add: divide_right_mono)
  also have "\<dots> \<le> b / 8"
    using b assms(1) by (intro divide_left_mono) simp_all
  finally show "y / sd \<le> b / 8" .
  have l: "b / sd \<le> b / 8"
    using b assms(1) by (intro divide_left_mono) simp_all
  have "(- b) / sd \<le> y / sd"
    using assms(2) sd by (intro divide_right_mono) simp_all
  then have "- (b / sd) \<le> y / sd" by simp
  with l show "- (b / 8) \<le> y / sd" by linarith
qed

lemma pri_chain_small:
  fixes q0 mean sd :: rat
  assumes q0: "0 \<le> q0" "q0 * 60 < 200"
    and mean: "0 \<le> mean" "mean \<le> 45" and sd: "8 \<le> sd"
  shows "\<bar>fl64 (100 + fl64 (fl64 (fl64 (fl64 (fl64 q0 * 60) - mean) / sd) * 15))
           - (100 + ((q0 * 60 - mean) / sd) * 15)\<bar> \<le> 1 / 2 ^ 35"
proof -
  define q where "q = fl64 q0"
  define t0 where "t0 = q * 60"
  define rate where "rate = fl64 t0"
  define d0 where "d0 = rate - mean"
  define dd where "dd = fl64 d0"
  define z0 where "z0 = dd / sd"
  define z where "z = fl64 z0"
  define w0 where "w0 = z * 15"
  define w where "w = fl64 w0"
  define p0 where "p0 = 100 + w"
  define p where "p = fl64 p0"
  define y where "y = dd - (q0 * 60 - mean)"
  define E where "E = (q0 * 60 - mean) / sd"
  note eqs = t0_def d0_def w0_def p0_def y_def
  have a1: "q \<le> q0 + 1 / 8796093022208" "q0 \<le> q + 1 / 8796093022208"
    unfolding q_def using q0 by (intro fl64_near2; linarith)+
  have a2: "rate \<le> t0 + 1 / 8796093022208" "t0 \<le> rate + 1 / 8796093022208"
    unfolding rate_def using q0 a1 eqs by (intro fl64_near2; linarith)+
  have a3: "dd \<le> d0 + 1 / 8796093022208" "d0 \<le> dd + 1 / 8796093022208"
    unfolding dd_def using q0 mean a1 a2 eqs by (intro fl64_near2; linarith)+
  have y: "- (62 / 8796093022208) \<le> y" "y \<le> 62 / 8796093022208"
    using a1 a2 a3 eqs by linarith+
  have dd: "- 246 \<le> dd" "dd \<le> 246"
    using y q0 mean eqs by linarith+
  have z0: "z0 \<le> 246 / 8" "- (246 / 8) \<le> z0"
    unfolding z0_def using sd dd by (intro div_sd_bound; linarith)+
  have a4: "z \<le> z0 + 1 / 8796093022208" "z0 \<le> z + 1 / 8796093022208"
    unfolding z_def using z0 by (intro fl64_near2; linarith)+
  have ze: "z0 - E = y / sd"
    by (simp add: z0_def E_def y_def diff_divide_distrib)
  have ys: "y / sd \<le> 62 / 8796093022208 / 8" "- (62 / 8796093022208 / 8) \<le> y / sd"
    using sd y by (intro div_sd_bound; linarith)+
  then have ys': "y / sd \<le> 62 / 70368744177664" "- (62 / 70368744177664) \<le> y / sd"
    by simp_all
  have eta: "(1::rat) / 2 ^ 35 = 1 / 34359738368"
    by simp
  have a5: "w \<le> w0 + 1 / 8796093022208" "w0 \<le> w + 1 / 8796093022208"
    unfolding w_def using a4 z0 eqs by (intro fl64_near2; linarith)+
  have a6: "p \<le> p0 + 1 / 8796093022208" "p0 \<le> p + 1 / 8796093022208"
    unfolding p_def using a5 a4 z0 eqs by (intro fl64_near2; linarith)+
  have "p - (100 + E * 15) \<le> 1 / 34359738368"
    and "- (p - (100 + E * 15)) \<le> 1 / 34359738368"
    using a6 a5 a4 ze ys' eqs by linarith+
  then have "\<bar>p - (100 + E * 15)\<bar> \<le> 1 / 2 ^ 35"
    unfolding eta by (simp only: abs_le_iff)
  then show ?thesis
    by (simp only: p_def p0_def w_def w0_def z_def z0_def dd_def d0_def rate_def t0_def q_def
        E_def)
qed

lemma pri_chain_big:
  fixes q0 mean sd :: rat
  assumes q0: "200 \<le> q0 * 60"
    and mean: "0 \<le> mean" "mean \<le> 45" and sd: "8 \<le> sd" "sd \<le> 12"
  shows "161 \<le> fl64 (100 + fl64 (fl64 (fl64 (fl64 (fl64 q0 * 60) - mean) / sd) * 15))"
    and "161 \<le> 100 + ((q0 * 60 - mean) / sd) * 15"
proof -
  define q where "q = fl64 q0"
  define t0 where "t0 = q * 60"
  define rate where "rate = fl64 t0"
  define d0 where "d0 = rate - mean"
  define dd where "dd = fl64 d0"
  define z0 where "z0 = dd / sd"
  define z where "z = fl64 z0"
  define w0 where "w0 = z * 15"
  define w where "w = fl64 w0"
  define p0 where "p0 = 100 + w"
  define p where "p = fl64 p0"
  note eqs = t0_def d0_def w0_def p0_def
  have a1: "q0 * 99 \<le> q * 100"
    unfolding q_def using q0 by (intro fl64_lower) linarith
  have a2: "t0 * 99 \<le> rate * 100"
    unfolding rate_def using q0 a1 eqs by (intro fl64_lower) linarith
  have a3: "d0 * 99 \<le> dd * 100"
    unfolding dd_def using q0 a1 a2 mean eqs by (intro fl64_lower) linarith
  have b3: "149 \<le> dd"
    using q0 a1 a2 a3 mean eqs by linarith
  have "dd / 12 \<le> dd / sd"
    using b3 sd by (intro divide_left_mono) simp_all
  then have l: "dd / 12 \<le> z0" by (simp only: z0_def)
  have a4: "z0 * 99 \<le> z * 100"
    unfolding z_def using l b3 by (intro fl64_lower) linarith
  have a5: "w0 * 99 \<le> w * 100"
    unfolding w_def using a4 l b3 eqs by (intro fl64_lower) linarith
  have a6: "p0 * 99 \<le> p * 100"
    unfolding p_def using a5 a4 l b3 eqs by (intro fl64_lower) linarith
  have "161 \<le> p"
    using a6 a5 a4 l b3 eqs by linarith
  then show "161 \<le> fl64 (100 + fl64 (fl64 (fl64 (fl64 (fl64 q0 * 60) - mean) / sd) * 15))"
    by (simp only: p_def p0_def w_def w0_def z_def z0_def dd_def d0_def rate_def t0_def q_def)
  define x where "x = q0 * 60 - mean"
  have x: "155 \<le> x"
    using q0 mean by (simp add: x_def)
  have "x / 12 \<le> x / sd"
    using x sd by (intro divide_left_mono) simp_all
  then have "161 \<le> 100 + (x / sd) * 15"
    using x by linarith
  then show "161 \<le> 100 + ((q0 * 60 - mean) / sd) * 15"
    by (simp only: x_def)
qed

lemma raw_exact:
  assumes "0 \<le> s" "s < 2 ^ 53" "0 \<le> m" "m < 2 ^ 53"
  shows "max 0 (fl64 (of_int s - fl64 (of_int m * 1))) = (of_int (max 0 (s - m)) :: rat)"
proof -
  have "fl64 (of_int m * 1) = of_int m"
    using assms by (simp add: fl64_of_int)
  moreover have "fl64 (of_int (s - m)) = of_int (s - m)"
    using assms by (intro fl64_of_int) linarith
  ultimately have "fl64 (of_int s - fl64 (of_int m * 1)) = of_int (s - m)"
    by simp
  then show ?thesis
    by (simp add: max_def)
qed

lemma spec_constants:
  "0 \<le> spec_mean g" "spec_mean g \<le> 45" "8 \<le> spec_sd g" "spec_sd g \<le> 12"
  by (cases g; simp add: spec_mean_def spec_sd_def)+

lemma calculatePRI_unfold:
  assumes "0 \<le> s" "s < 2 ^ 53" "0 \<le> m" "m < 2 ^ 53" "10 \<le> e"
  shows "calculatePRI s m e (Some g) =
     max 40 (min 160 (Math_round
       (fl64 (100 + fl64 (fl64 (fl64 (fl64 (fl64 (of_int (max 0 (s - m)) / of_int e) * 60)
          - spec_mean g) / spec_sd g) * 15)))))"
proof -
  have c: "(if Some g = Some SymbolMatch then 45 else 30) = spec_mean g"
    "(if Some g = Some SymbolMatch then 12 else 8) = spec_sd g"
    by (cases g; simp add: spec_mean_def spec_sd_def)+
  show ?thesis
    using assms(5) unfolding calculatePRI_def Let_def raw_exact [OF assms(1-4)] c
    by simp
qed

lemma spec_tie_grid:
  assumes "10 \<le> e"
  shows "\<exists>K. (spec_raw_index s m e g + 1 / 2) * (4 * of_int e) = of_int K"
proof (cases g)
  case SymbolMatch
  have "(spec_raw_index s m e g + 1 / 2) * (4 * of_int e)
      = of_int (177 * e + 300 * max 0 (s - m))"
    using assms by (simp add: spec_raw_index_def spec_mean_def spec_sd_def SymbolMatch
        field_simps)
  then show ?thesis by blast
next
  case Coding
  have "(spec_raw_index s m e g + 1 / 2) * (4 * of_int e)
      = of_int (177 * e + 450 * max 0 (s - m))"
    using assms by (simp add: spec_raw_index_def spec_mean_def spec_sd_def Coding
        field_simps)
  then show ?thesis by blast
qed

lemma tie_or_clear:
  fixes P :: rat and e :: int
  assumes e: "10 \<le> e" "e < 2 ^ 31"
    and grid: "(P + 1 / 2) * (4 * of_int e) = of_int K"
    and nt: "P + 1 / 2 \<notin> \<int>"
  shows "of_int \<lfloor>P + 1 / 2\<rfloor> + 1 / 2 ^ 33 \<le> P + 1 / 2"
    and "P + 1 / 2 + 1 / 2 ^ 33 \<le> of_int \<lfloor>P + 1 / 2\<rfloor> + 1"
proof -
  define n where "n = \<lfloor>P + 1 / 2\<rfloor>"
  define fr where "fr = P + 1 / 2 - of_int n"
  define E :: rat where "E = 4 * of_int e"
  have E: "0 < E" "E \<le> 2 ^ 33"
  proof -
    show "0 < E" using e by (simp add: E_def)
    have "4 * e \<le> 2 ^ 33" using e by simp
    then have "(of_int (4 * e) :: rat) \<le> of_int (2 ^ 33)"
      by (simp only: of_int_le_iff)
    then show "E \<le> 2 ^ 33" by (simp add: E_def)
  qed
  have fr: "0 \<le> fr" "fr < 1"
    unfolding fr_def n_def by linarith+
  have "fr \<noteq> 0"
  proof
    assume "fr = 0"
    then have "P + 1 / 2 = of_int n" by (simp add: fr_def)
    then show False using nt by (metis Ints_of_int)
  qed
  with fr have fr0: "0 < fr" by simp
  define kk where "kk = K - 4 * e * n"
  have k: "fr * E = of_int kk"
    using grid by (simp add: fr_def E_def kk_def algebra_simps)
  have "0 < fr * E" using fr0 E by simp
  then have "(0::rat) < of_int kk" by (simp only: k)
  then have "0 < kk" by (simp only: of_int_0_less_iff)
  then have "1 \<le> kk" by simp
  then have "(of_int 1 :: rat) \<le> of_int kk"
    by (simp only: of_int_le_iff)
  then have lo: "1 \<le> fr * E" by (simp add: k)
  have Ee: "E = of_int (4 * e)" by (simp add: E_def)
  have "fr * E < 1 * E"
    using fr(2) E(1) by (intro mult_strict_right_mono)
  then have "of_int kk < 1 * E" by (simp only: k)
  then have "of_int kk < E" by (simp only: mult_1)
  then have "(of_int kk :: rat) < of_int (4 * e)"
    by (simp only: Ee)
  then have "kk < 4 * e" by (simp only: of_int_less_iff)
  then have "kk + 1 \<le> 4 * e" by simp
  then have "(of_int (kk + 1) :: rat) \<le> of_int (4 * e)"
    by (simp only: of_int_le_iff)
  then have "(of_int kk :: rat) + 1 \<le> of_int (4 * e)" by simp
  then have "(of_int kk :: rat) + 1 \<le> E" by (simp only: Ee)
  then have hi: "fr * E + 1 \<le> E" by (simp only: k)
  have a: "fr * E \<le> fr * 2 ^ 33"
    using fr(1) E(2) by (intro mult_left_mono)
  have b: "(1 - fr) * E \<le> (1 - fr) * 2 ^ 33"
    using fr(2) E(2) by (intro mult_left_mono) simp_all
  have c: "(1 - fr) * E = E - fr * E"
    by (simp add: algebra_simps)
  have "1 \<le> fr * 8589934592"
    using lo a by simp
  then have lo': "1 / 2 ^ 33 \<le> fr" by simp
  have "1 \<le> (1 - fr) * 8589934592"
    using hi b c by simp
  then have hi': "fr + 1 / 2 ^ 33 \<le> 1" by simp
  show "of_int \<lfloor>P + 1 / 2\<rfloor> + 1 / 2 ^ 33 \<le> P + 1 / 2"
    using lo' unfolding fr_def n_def by linarith
  show "P + 1 / 2 + 1 / 2 ^ 33 \<le> of_int \<lfloor>P + 1 / 2\<rfloor> + 1"
    using hi' unfolding fr_def n_def by linarith
qed

lemma calculatePRI_scenario_A: "calculatePRI 30 5 60 (Some SymbolMatch) = 75"
  by code_simp

lemma round_pair:
  fixes p P :: rat
  assumes near: "\<bar>p - P\<bar> \<le> 1 / 2 ^ 35"
    and clear: "P + 1 / 2 \<notin> \<int> \<Longrightarrow>
      of_int \<lfloor>P + 1 / 2\<rfloor> + 1 / 2 ^ 33 \<le> P + 1 / 2
      \<and> P + 1 / 2 + 1 / 2 ^ 33 \<le> of_int \<lfloor>P + 1 / 2\<rfloor> + 1"
  shows "P + 1 / 2 \<notin> \<int> \<Longrightarrow> \<lfloor>p + 1 / 2\<rfloor> = \<lfloor>P + 1 / 2\<rfloor>"
    and "\<lfloor>P + 1 / 2\<rfloor> - 1 \<le> \<lfloor>p + 1 / 2\<rfloor>"
    and "\<lfloor>p + 1 / 2\<rfloor> \<le> \<lfloor>P + 1 / 2\<rfloor>"
proof -
  define n where "n = \<lfloor>P + 1 / 2\<rfloor>"
  define x where "x = P + 1 / 2"
  define y where "y = p + 1 / 2"
  have "p - P \<le> 1 / 2 ^ 35 \<and> - (p - P) \<le> 1 / 2 ^ 35"
    using near by (simp only: abs_le_iff)
  then have d: "y \<le> x + 1 / 34359738368" "x \<le> y + 1 / 34359738368"
    by (simp_all add: x_def y_def)
  have nx: "of_int n \<le> x" "x < of_int n + 1"
    unfolding n_def x_def by linarith+
  have eq: "\<lfloor>y\<rfloor> = n" if "x \<notin> \<int>"
  proof -
    have "of_int n + 1 / 2 ^ 33 \<le> x \<and> x + 1 / 2 ^ 33 \<le> of_int n + 1"
      using clear that unfolding x_def n_def by blast
    then have g: "of_int n + 1 / 8589934592 \<le> x" "x + 1 / 8589934592 \<le> of_int n + 1"
      by simp_all
    have "of_int n \<le> y" "y < of_int n + 1"
      using g d by linarith+
    then show ?thesis by (rule floor_unique)
  qed
  have tie: "n - 1 \<le> \<lfloor>y\<rfloor> \<and> \<lfloor>y\<rfloor> \<le> n" if "x \<in> \<int>"
  proof -
    from that obtain k where k: "x = of_int k" by (rule Ints_cases)
    then have "n = k" using nx by linarith
    then have xn: "x = of_int n" using k by simp
    have "of_int (n - 1) \<le> y"
      using d xn by simp
    then have lo: "n - 1 \<le> \<lfloor>y\<rfloor>" by (simp only: le_floor_iff)
    have "y < of_int (n + 1)"
      using d xn by simp
    then have "\<lfloor>y\<rfloor> < n + 1" by (simp only: floor_less_iff)
    with lo show ?thesis by simp
  qed
  show "P + 1 / 2 \<notin> \<int> \<Longrightarrow> \<lfloor>p + 1 / 2\<rfloor> = \<lfloor>P + 1 / 2\<rfloor>"
    using eq unfolding x_def y_def n_def by blast
  show "\<lfloor>P + 1 / 2\<rfloor> - 1 \<le> \<lfloor>p + 1 / 2\<rfloor>"
    using eq tie unfolding x_def y_def n_def by (cases "P + 1 / 2 \<in> \<int>") simp_all
  show "\<lfloor>p + 1 / 2\<rfloor> \<le> \<lfloor>P + 1 / 2\<rfloor>"
    using eq tie unfolding x_def y_def n_def by (cases "P + 1 / 2 \<in> \<int>") simp_all
qed

text \<open>The double nearest to one tenth, as a check of \<open>fl64\<close> against the format.\<close>

lemma fl64_one_tenth: "fl64 (1 / 10) = 3602879701896397 / 2 ^ 55"
  by code_simp

text \<open>
  Nine net answers in a hundred seconds of symbol search: the exact index is \<open>50.5\<close>, a
  tie, and the doubles of the computation are these. The last is one unit in the last place
  below \<open>50.5 = 7107243161944064 / 2^47\<close>.
\<close>

lemma tie_trace:
  "fl64 (9 / 100) = 3242591731706757 / 2 ^ 55"
  "fl64 (fl64 (9 / 100) * 60) = 6079859496950169 / 2 ^ 50"
  "fl64 (fl64 (fl64 (9 / 100) * 60) - 45) = - 5573204538870989 / 2 ^ 47"
  "fl64 (fl64 (fl64 (fl64 (9 / 100) * 60) - 45) / 12) = - 7430939385161319 / 2 ^ 51"
  "fl64 (fl64 (fl64 (fl64 (fl64 (9 / 100) * 60) - 45) / 12) * 15)
     = - 6966505673588737 / 2 ^ 47"
  "fl64 (100 + fl64 (fl64 (fl64 (fl64 (fl64 (9 / 100) * 60) - 45) / 12) * 15))
     = 7107243161944063 / 2 ^ 47"
  "spec_raw_index 9 0 100 SymbolMatch = 101 / 2"
  by code_simp+

text \<open>
  Claim C1 says that for at least ten seconds elapsed \<open>calculatePRI\<close> returns the index
  formula, rounded and clamped. Read in exact arithmetic this fails: at score 9, no
  mistakes, 100 seconds of symbol search the formula gives 50.5, which rounds to 51, and
  the code, which rounds every intermediate result to a double, returns 50.
\<close>

theorem calculatePRI_formula_counterexample:
  "calculatePRI 9 0 100 (Some SymbolMatch) = 50 \<and> spec_index 9 0 100 SymbolMatch = 51"
  by code_simp

text \<open>
  Claim C1 as amended. For counters below \<open>2^53\<close> and an elapsed time from 10 up to
  \<open>2^31\<close> seconds, \<open>calculatePRI\<close> returns the exact formula's rounded and clamped value
  whenever the exact index is not halfway between two integers; at such a tie it returns
  that value or the integer below it. In particular the index of 30 right answers and 5
  mistakes in 60 seconds of symbol search is 75.
\<close>

theorem calculatePRI_formula:
  assumes "0 \<le> s" "s < 2 ^ 53" "0 \<le> m" "m < 2 ^ 53" "10 \<le> e" "e < 2 ^ 31"
  shows "(spec_raw_index s m e g + 1 / 2 \<notin> \<int> \<longrightarrow>
            calculatePRI s m e (Some g) = spec_index s m e g)
     \<and> spec_index s m e g - 1 \<le> calculatePRI s m e (Some g)
     \<and> calculatePRI s m e (Some g) \<le> spec_index s m e g
     \<and> calculatePRI 30 5 60 (Some SymbolMatch) = 75"
proof -
  define q0 :: rat where "q0 = of_int (max 0 (s - m)) / of_int e"
  define P where "P = spec_raw_index s m e g"
  define p where "p = fl64 (100 + fl64 (fl64 (fl64 (fl64 (fl64 q0 * 60) - spec_mean g)
      / spec_sd g) * 15))"
  define cp where "cp = \<lfloor>p + 1 / 2\<rfloor>"
  define cP where "cP = \<lfloor>P + 1 / 2\<rfloor>"
  have Pq: "P = 100 + ((q0 * 60 - spec_mean g) / spec_sd g) * 15"
    by (simp add: P_def spec_raw_index_def q0_def)
  have code: "calculatePRI s m e (Some g) = max 40 (min 160 cp)"
    unfolding calculatePRI_unfold [OF assms(1-5)] by (simp add: p_def q0_def Math_round_def cp_def)
  have spec: "spec_index s m e g = max 40 (min 160 cP)"
    by (simp add: spec_index_def P_def round_def cP_def)
  have q0: "0 \<le> q0"
    using assms by (simp add: q0_def)
  have rel: "(P + 1 / 2 \<notin> \<int> \<longrightarrow> max 40 (min 160 cp) = max 40 (min 160 cP))
      \<and> max 40 (min 160 cP) - 1 \<le> max 40 (min 160 cp)
      \<and> max 40 (min 160 cp) \<le> max 40 (min 160 cP)"
  proof (cases "q0 * 60 < 200")
    case True
    have near: "\<bar>p - P\<bar> \<le> 1 / 2 ^ 35"
      unfolding p_def Pq using q0 True spec_constants(1,2,3) by (rule pri_chain_small)
    obtain K where K: "(P + 1 / 2) * (4 * of_int e) = of_int K"
      using spec_tie_grid [OF assms(5), of s m g] unfolding P_def by blast
    have clear: "of_int \<lfloor>P + 1 / 2\<rfloor> + 1 / 2 ^ 33 \<le> P + 1 / 2
        \<and> P + 1 / 2 + 1 / 2 ^ 33 \<le> of_int \<lfloor>P + 1 / 2\<rfloor> + 1" if "P + 1 / 2 \<notin> \<int>"
      using tie_or_clear [OF assms(5,6) K that] by blast
    have r: "P + 1 / 2 \<notin> \<int> \<Longrightarrow> cp = cP" "cP - 1 \<le> cp" "cp \<le> cP"
      unfolding cp_def cP_def using round_pair [OF near clear] by blast+
    have "max 40 (min 160 cP) - 1 \<le> max 40 (min 160 cp)"
      and "max 40 (min 160 cp) \<le> max 40 (min 160 cP)"
      using r(2,3) by linarith+
    moreover have "max 40 (min 160 cp) = max 40 (min 160 cP)" if "P + 1 / 2 \<notin> \<int>"
      using r(1) [OF that] by simp
    ultimately show ?thesis by blast
  next
    case False
    then have big: "200 \<le> q0 * 60" by simp
    have "161 \<le> p"
      unfolding p_def using big spec_constants by (rule pri_chain_big(1))
    then have "of_int 160 \<le> p + 1 / 2" by simp
    then have a: "160 \<le> cp" unfolding cp_def by (simp only: le_floor_iff)
    have "161 \<le> P"
      unfolding Pq using big spec_constants by (rule pri_chain_big(2))
    then have "of_int 160 \<le> P + 1 / 2" by simp
    then have b: "160 \<le> cP" unfolding cP_def by (simp only: le_floor_iff)
    show ?thesis using a b by simp
  qed
  show ?thesis
    unfolding code spec using rel calculatePRI_scenario_A by (simp add: P_def)
qed

lemma scenario_A_not_tie: "frac (spec_raw_index 30 5 60 SymbolMatch + 1 / 2) = 1 / 2"
  by code_simp

lemma scenario_A_spec: "spec_index 30 5 60 SymbolMatch = 75"
  by code_simp

theorem calculatePRI_formula_witness:
  "(0::int) \<le> 30 \<and> (30::int) < 2 ^ 53 \<and> (0::int) \<le> 5 \<and> (5::int) < 2 ^ 53
   \<and> (10::int) \<le> 60 \<and> (60::int) < 2 ^ 31
   \<and> spec_raw_index 30 5 60 SymbolMatch + 1 / 2 \<notin> \<int>
   \<and> calculatePRI 30 5 60 (Some SymbolMatch) = spec_index 30 5 60 SymbolMatch
   \<and> spec_index 30 5 60 SymbolMatch = 75"
proof -
  have nt: "spec_raw_index 30 5 60 SymbolMatch + 1 / 2 \<notin> \<int>"
    using scenario_A_not_tie by (metis frac_eq_0_iff zero_neq_one divide_eq_0_iff zero_neq_numeral)
  have "calculatePRI 30 5 60 (Some SymbolMatch) = spec_index 30 5 60 SymbolMatch"
    using calculatePRI_formula [of 30 5 60 SymbolMatch] nt by simp
  then show ?thesis
    using nt scenario_A_spec by simp
qed

end
